theory Spec2Isabelle
  imports Main "HOL-Library.Char_ord" "HOL-Library.List_Lexorder" "HOL-Library.AList"
begin

section \<open>The configuration syntax tree and diagnostics\<close>

text \<open>
  The loader consumes parsed River blocks. A block statement carries its dotted name
  (\<open>Name\<close>, a list of identifiers), its label and its body; a body is a list of
  statements, each an attribute or a nested block. Source positions are left out: no
  operation below branches on them.
\<close>

datatype BlockStmt = BlockStmt (Name: "string list") (Label: string) (Body: "Stmt list")
  and Stmt = AttributeStmt string | BlockStmtOf BlockStmt

datatype Severity = SeverityLevelWarn | SeverityLevelError

record Diagnostic =
  Severity :: Severity
  Message :: string

type_synonym Diagnostics = "Diagnostic list"

definition HasErrors :: "Diagnostics \<Rightarrow> bool" where
  "HasErrors ds = (list_ex (\<lambda>d. Severity d = SeverityLevelError) ds)"

text \<open>\<open>strings.Join\<close> of the Go standard library.\<close>

fun Join :: "string list \<Rightarrow> string \<Rightarrow> string" where
  "Join [] sep = []"
| "Join [x] sep = x"
| "Join (x # y # ys) sep = x @ sep @ Join (y # ys) sep"

text \<open>The \<open>%v\<close> rendering of a string slice: the elements between brackets, separated
  by one space.\<close>

definition fmtStrings :: "string list \<Rightarrow> string" where
  "fmtStrings xs = ''['' @ Join xs '' '' @ '']''"

section \<open>Go maps with string keys\<close>

text \<open>
  A Go map is modelled as an association list with distinct keys; a read of a missing
  key yields the zero value of the element type, and a write replaces or inserts.
\<close>

type_synonym 'v gomap = "(string \<times> 'v) list"

definition getInt :: "int gomap \<Rightarrow> string \<Rightarrow> int" where
  "getInt m k = (case map_of m k of None \<Rightarrow> 0 | Some v \<Rightarrow> v)"

definition getList :: "(string list) gomap \<Rightarrow> string \<Rightarrow> string list" where
  "getList m k = (case map_of m k of None \<Rightarrow> [] | Some v \<Rightarrow> v)"

definition hasKey :: "'v gomap \<Rightarrow> string \<Rightarrow> bool" where
  "hasKey m k = (map_of m k \<noteq> None)"

section \<open>Ordering declare blocks\<close>

text \<open>
  \<open>findDeclareDependencies\<close>: the labels of \<open>blockByLabel\<close> that the body of a declare
  block names, looking at the block statements of the body and, for a nested block named
  \<open>declare\<close>, recursively at its body.
\<close>

fun findDeclareDependencies :: "BlockStmt \<Rightarrow> BlockStmt gomap \<Rightarrow> string list"
  and findInBody :: "Stmt list \<Rightarrow> BlockStmt gomap \<Rightarrow> string list" where
  "findDeclareDependencies (BlockStmt n l body) blockByLabel = findInBody body blockByLabel"
| "findInBody [] blockByLabel = []"
| "findInBody (AttributeStmt a # rest) blockByLabel = findInBody rest blockByLabel"
| "findInBody (BlockStmtOf blockStmt # rest) blockByLabel =
     (let fullName = Join (Name blockStmt) ''.'' in
      (if fullName = ''declare'' then findDeclareDependencies blockStmt blockByLabel
       else if hasKey blockByLabel fullName then [fullName]
       else []) @ findInBody rest blockByLabel)"

text \<open>The first loop of \<open>SortDeclareBlocks\<close>: the last block of each label, and an empty
  successor list for every label.\<close>

fun indexBlocks :: "BlockStmt list \<Rightarrow> (string list) gomap \<times> BlockStmt gomap
    \<Rightarrow> (string list) gomap \<times> BlockStmt gomap" where
  "indexBlocks [] (graph, blockByLabel) = (graph, blockByLabel)"
| "indexBlocks (block # rest) (graph, blockByLabel) =
     indexBlocks rest
       (if hasKey graph (Label block) then graph else AList.update (Label block) [] graph,
        AList.update (Label block) block blockByLabel)"

text \<open>The second loop: every dependency \<open>dep\<close> of a block gains the block's label as a
  successor, and the label's in-degree grows by one.\<close>

fun addDependencies :: "string \<Rightarrow> string list \<Rightarrow> (string list) gomap \<times> int gomap
    \<Rightarrow> (string list) gomap \<times> int gomap" where
  "addDependencies label [] (graph, inDegree) = (graph, inDegree)"
| "addDependencies label (dep # deps) (graph, inDegree) =
     addDependencies label deps
       (AList.update dep (getList graph dep @ [label]) graph,
        AList.update label (getInt inDegree label + 1) inDegree)"

fun countDependencies :: "BlockStmt gomap \<Rightarrow> BlockStmt list \<Rightarrow> (string list) gomap \<times> int gomap
    \<Rightarrow> (string list) gomap \<times> int gomap" where
  "countDependencies blockByLabel [] acc = acc"
| "countDependencies blockByLabel (block # rest) acc =
     countDependencies blockByLabel rest
       (addDependencies (Label block) (findDeclareDependencies block blockByLabel) acc)"

text \<open>The inner loop of the sort: the successors of the label just emitted lose one unit
  of in-degree each, and one that reaches zero joins the queue.\<close>

fun releaseDependents :: "string list \<Rightarrow> int gomap \<times> string list \<Rightarrow> int gomap \<times> string list" where
  "releaseDependents [] (inDegree, queue) = (inDegree, queue)"
| "releaseDependents (dep # deps) (inDegree, queue) =
     (let inDegree' = AList.update dep (getInt inDegree dep - 1) inDegree
      in releaseDependents deps
           (inDegree', if getInt inDegree' dep = 0 then queue @ [dep] else queue))"

definition positives :: "int gomap \<Rightarrow> nat" where
  "positives m = length (filter (\<lambda>kv. 0 < snd kv) m)"

lemma positives_update_le:
  "positives (AList.update k (getInt m k - 1) m) \<le> positives m"
proof (induction m)
  case Nil
  show ?case by (simp add: positives_def getInt_def)
next
  case (Cons p m)
  show ?case
  proof (cases "fst p = k")
    case True
    then show ?thesis by (cases p) (simp add: positives_def getInt_def)
  next
    case False
    then have "getInt (p # m) k = getInt m k" by (cases p) (simp add: getInt_def)
    with Cons False show ?thesis by (cases p) (simp add: positives_def)
  qed
qed

lemma positives_update_zero:
  "getInt m k - 1 = 0 \<Longrightarrow> positives (AList.update k (getInt m k - 1) m) < positives m"
proof (induction m)
  case Nil
  then show ?case by (simp add: getInt_def)
next
  case (Cons p m)
  show ?case
  proof (cases "fst p = k")
    case True
    with Cons.prems show ?thesis by (cases p) (simp add: positives_def getInt_def)
  next
    case False
    then have "getInt (p # m) k = getInt m k" by (cases p) (simp add: getInt_def)
    with Cons False show ?thesis by (cases p) (simp add: positives_def)
  qed
qed

lemma getInt_update_same [simp]: "getInt (AList.update k v m) k = v"
  by (simp add: getInt_def update_conv')

lemma getInt_update_other [simp]: "k' \<noteq> k \<Longrightarrow> getInt (AList.update k v m) k' = getInt m k'"
  by (simp add: getInt_def update_conv')

lemma releaseDependents_measure:
  "releaseDependents deps (inDegree, queue) = (inDegree', queue') \<Longrightarrow>
   2 * positives inDegree' + length queue' \<le> 2 * positives inDegree + length queue"
proof (induction deps arbitrary: inDegree queue)
  case Nil
  then show ?case by simp
next
  case (Cons dep deps)
  let ?d = "AList.update dep (getInt inDegree dep - 1) inDegree"
  let ?q = "if getInt ?d dep = 0 then queue @ [dep] else queue"
  from Cons.prems have "releaseDependents deps (?d, ?q) = (inDegree', queue')"
    by (simp add: Let_def)
  from Cons.IH [OF this]
  have le: "2 * positives inDegree' + length queue' \<le> 2 * positives ?d + length ?q" .
  show ?case
  proof (cases "getInt inDegree dep - 1 = 0")
    case True
    from positives_update_zero [OF True] have "positives ?d < positives inDegree" .
    with le True show ?thesis by simp
  next
    case False
    with le positives_update_le [of dep inDegree] show ?thesis by simp
  qed
qed

text \<open>The main loop of the sort. The state is the queue, the in-degree map and the list
  emitted so far; a read of \<open>blockByLabel\<close> yields a pointer, \<open>None\<close> being nil.\<close>

function kahnLoop :: "(string list) gomap \<Rightarrow> BlockStmt gomap
    \<Rightarrow> string list \<times> int gomap \<times> BlockStmt option list
    \<Rightarrow> BlockStmt option list \<times> int gomap" where
  "kahnLoop graph blockByLabel (queue, inDegree, sortedList) =
     (case queue of
        [] \<Rightarrow> (sortedList, inDegree)
      | label # rest \<Rightarrow>
          (case releaseDependents (getList graph label) (inDegree, rest) of
             (inDegree', queue') \<Rightarrow>
               kahnLoop graph blockByLabel
                 (queue', inDegree', sortedList @ [map_of blockByLabel label])))"
  by pat_completeness auto
termination
proof (relation "measure (\<lambda>(graph, blockByLabel, queue, inDegree, sortedList).
          2 * positives inDegree + length queue)", goal_cases)
  case 1
  show ?case by simp
next
  case (2 graph blockByLabel queue inDegree sortedList label rest inDegree' queue')
  from 2(2) have "releaseDependents (getList graph label) (inDegree, rest) = (inDegree', queue')"
    by simp
  from releaseDependents_measure [OF this] 2(1) show ?case by simp
qed

declare kahnLoop.simps [simp del]

text \<open>
  \<open>SortDeclareBlocks\<close>. Go leaves the iteration order of a map unspecified, so the order
  in which \<open>range blockByLabel\<close> yields the labels is the parameter \<open>rangeOrder\<close>. The
  unresolved labels are sorted before they are printed, which makes the order of
  \<open>range inDegree\<close> immaterial. The nil slice is the empty list.
\<close>

definition cycleDiagnostic :: "string list \<Rightarrow> Diagnostic" where
  "cycleDiagnostic unresolvedLabels =
     \<lparr>Severity = SeverityLevelError,
      Message = ''Detected a cycle in declare dependencies; cannot sort: ''
                 @ fmtStrings unresolvedLabels\<rparr>"

definition declareSortRun :: "string list \<Rightarrow> BlockStmt list
    \<Rightarrow> (BlockStmt option list \<times> int gomap) \<times> BlockStmt gomap" where
  "declareSortRun rangeOrder declareBlocks =
     (case indexBlocks declareBlocks ([], []) of (graph0, blockByLabel) \<Rightarrow>
      case countDependencies blockByLabel declareBlocks (graph0, []) of (graph, inDegree) \<Rightarrow>
        (kahnLoop graph blockByLabel
           (filter (\<lambda>label. getInt inDegree label = 0) rangeOrder, inDegree, []),
         blockByLabel))"

definition SortDeclareBlocks :: "string list \<Rightarrow> BlockStmt list
    \<Rightarrow> BlockStmt option list \<times> Diagnostics" where
  "SortDeclareBlocks rangeOrder declareBlocks =
     (case declareSortRun rangeOrder declareBlocks of ((sortedList, inDegree), blockByLabel) \<Rightarrow>
        if length sortedList \<noteq> length blockByLabel then
          ([], [cycleDiagnostic
                  (sort (map fst (filter (\<lambda>(label, count). 0 < count) inDegree)))])
        else (sortedList, []))"

section \<open>Nodes, the node store and the graph\<close>

text \<open>
  Graph nodes are Go pointers. A pointer is an address (\<open>ref\<close>) into a store of node
  objects, so that two occurrences of one address are one node and a write through one
  is seen through the other. An object records which node type it is, its node ID, its
  namespace, the block it points at (nil for an unconfigured service) and, as one opaque
  value \<open>managed\<close>, the rest of its state (for a component: its arguments, its exports and
  the running component it manages).
\<close>

type_synonym ref = nat

datatype NodeType =
    ComponentNode | ServiceNode | DeclareComponentNode
  | ArgumentConfigNode | ExportConfigNode | ConfigBlockNode

record Node =
  nodeType :: NodeType
  NodeID :: string
  Namespace :: string
  Block :: "BlockStmt option"
  managed :: nat

type_synonym Store = "Node list"

definition alloc :: "Node \<Rightarrow> Store \<Rightarrow> ref \<times> Store" where
  "alloc n h = (length h, h @ [n])"

text \<open>Modelled from the spec: \<open>UpdateBlock\<close> of a node is not in the sources; the spec
  says a reused node has its block reference updated, and nothing else.\<close>

definition UpdateBlock :: "ref \<Rightarrow> BlockStmt option \<Rightarrow> Store \<Rightarrow> Store" where
  "UpdateBlock r b h = h[r := (h ! r)\<lparr>Block := b\<rparr>]"

text \<open>Modelled from the spec: \<open>BlockComponentID\<close> is not in the sources; the spec derives
  the stable ID from the block's type and label. The ID is the dotted name followed, when
  there is one, by the label.\<close>

definition BlockComponentID :: "BlockStmt \<Rightarrow> string" where
  "BlockComponentID b = Join (Name b @ (if Label b = [] then [] else [Label b])) ''.''"

definition GetBlockName :: "BlockStmt \<Rightarrow> string" where
  "GetBlockName b = Join (Name b) ''.''"

text \<open>
  Modelled from the spec: the package \<open>dag\<close> is not in the sources. Section 4.1 of the spec
  gives its contract: a container of nodes and directed edges (\<open>From\<close> depends on \<open>To\<close>),
  looked up by node ID; \<open>Validate\<close> fails on a cycle; \<open>Reduce\<close> is the transitive
  reduction, removing the edges that a longer path implies; \<open>Clone\<close> is an independent
  copy sharing the nodes; \<open>WalkIncomingNodes\<close> visits the direct predecessors of a node.
\<close>

record Graph =
  nodeByID :: "ref gomap"
  nodes :: "ref list"
  edges :: "(ref \<times> ref) list"

definition emptyGraph :: Graph where
  "emptyGraph = \<lparr>nodeByID = [], nodes = [], edges = []\<rparr>"

definition Add :: "Store \<Rightarrow> ref \<Rightarrow> Graph \<Rightarrow> Graph" where
  "Add h r g = g\<lparr>nodeByID := AList.update (NodeID (h ! r)) r (nodeByID g),
                 nodes := (if r \<in> set (nodes g) then nodes g else nodes g @ [r])\<rparr>"

definition GetByID :: "Graph \<Rightarrow> string \<Rightarrow> ref option" where
  "GetByID g nid = map_of (nodeByID g) nid"

definition AddEdge :: "ref \<times> ref \<Rightarrow> Graph \<Rightarrow> Graph" where
  "AddEdge e g = g\<lparr>edges := (if e \<in> set (edges g) then edges g else edges g @ [e])\<rparr>"

definition MergeEdges :: "Graph \<Rightarrow> Graph \<Rightarrow> Graph" where
  "MergeEdges sub g = fold AddEdge (edges sub) g"

definition Clone :: "Graph \<Rightarrow> Graph" where
  "Clone g = g"

text \<open>\<open>pathWithin es k a b\<close>: some path of at least one and at most \<open>k\<close> edges of \<open>es\<close>
  leads from \<open>a\<close> to \<open>b\<close>.\<close>

fun pathWithin :: "(ref \<times> ref) list \<Rightarrow> nat \<Rightarrow> ref \<Rightarrow> ref \<Rightarrow> bool" where
  "pathWithin es 0 a b = False"
| "pathWithin es (Suc k) a b =
     ((a, b) \<in> set es \<or> list_ex (\<lambda>e. fst e = a \<and> pathWithin es k (snd e) b) es)"

text \<open>\<open>Validate\<close>: the error messages, one per node on a cycle; the empty list is the nil
  error.\<close>

definition Validate :: "Store \<Rightarrow> Graph \<Rightarrow> string list" where
  "Validate h g =
     map (\<lambda>r. ''cycle: '' @ NodeID (h ! r))
       (filter (\<lambda>r. pathWithin (edges g) (length (edges g)) r r) (nodes g))"

text \<open>\<open>Reduce\<close>: an edge goes when a path of two or more edges joins its ends.\<close>

definition impliedByLongerPath :: "(ref \<times> ref) list \<Rightarrow> ref \<times> ref \<Rightarrow> bool" where
  "impliedByLongerPath es e =
     list_ex (\<lambda>e'. fst e' = fst e \<and> pathWithin es (length es) (snd e') (snd e)) es"

definition Reduce :: "Graph \<Rightarrow> Graph" where
  "Reduce g = g\<lparr>edges := filter (\<lambda>e. \<not> impliedByLongerPath (edges g) e) (edges g)\<rparr>"

definition WalkIncomingNodes :: "Graph \<Rightarrow> ref \<Rightarrow> ref list" where
  "WalkIncomingNodes g n = remdups (map fst (filter (\<lambda>e. snd e = n) (edges g)))"

section \<open>The loader\<close>

text \<open>
  The state of a \<open>Loader\<close>: the fields the operations below read or write, the
  export-change index of its cache, and the node store. Two further fields have no
  counterpart in the code: \<open>evaluated\<close> logs every node handed to \<open>evaluate\<close>, and
  \<open>notified\<close> the cache index at every call of \<open>OnExportsChange\<close>.
\<close>

record Loader =
  services :: "string list"
  registered :: "string list"
  hasOnExportsChange :: bool
  ControllerID :: string
  graph :: Graph
  originalGraph :: Graph
  componentNodes :: "ref list"
  serviceNodes :: "ref list"
  blocks :: "BlockStmt list"
  moduleExportIndex :: int
  exportChangeIndex :: int
  store :: Store
  evaluated :: "ref list"
  notified :: "int list"

definition isModule :: "Loader \<Rightarrow> bool" where
  "isModule l = (hasOnExportsChange l \<and> ControllerID l \<noteq> [])"

text \<open>
  Modelled from the spec: a declare template and its \<open>DeepClone\<close> are not in the sources.
  A template is a graph over node objects of its own; instantiating it under a namespace
  allocates a fresh copy of every node, with the ID and the namespace prefixed, and keeps
  the internal edges.
\<close>

record Template =
  templateNodes :: "Node list"
  templateEdges :: "(nat \<times> nat) list"

definition namespaced :: "string \<Rightarrow> Node \<Rightarrow> Node" where
  "namespaced ns n =
     n\<lparr>NodeID := ns @ ''.'' @ NodeID n,
       Namespace := (if Namespace n = [] then ns else ns @ ''.'' @ Namespace n)\<rparr>"

definition DeepClone :: "Template \<Rightarrow> string \<Rightarrow> Store \<Rightarrow> Graph \<times> Store" where
  "DeepClone t ns h =
     (let h' = h @ map (namespaced ns) (templateNodes t);
          rs = map (\<lambda>i. length h + i) [0 ..< length (templateNodes t)]
      in (fold (Add h') rs
            (emptyGraph\<lparr>edges := map (\<lambda>(a, b). (length h + a, length h + b)) (templateEdges t)\<rparr>),
          h'))"

text \<open>
  What the sources leave to code outside them is a parameter of the model: the
  population of service, config-block and declare-block nodes (node constructors,
  templates), the references found in a node's expressions, the services a service
  depends on, the order of the topological walk, the evaluation of one node (which
  may change the store and, with the cache writes that follow it, the cache index), the
  effect of clearing the module exports on the cache index, and the order in which Go
  enumerates the labels of the declare blocks. An evaluation error carries its text and,
  when it wraps diagnostics, those diagnostics (what \<open>errors.As\<close> finds).
\<close>

datatype EvalError = EvalError (errorText: string) (asDiagnostics: "Diagnostics option")

type_synonym ModuleArgs = "string gomap"

record LoadEnv =
  populateServiceNodes :: "Loader \<Rightarrow> Graph \<times> Store \<Rightarrow> BlockStmt list
      \<Rightarrow> (Graph \<times> Store) \<times> Diagnostics"
  populateConfigBlockNodes :: "Loader \<Rightarrow> ModuleArgs \<Rightarrow> Graph \<times> Store \<Rightarrow> BlockStmt list \<Rightarrow> bool
      \<Rightarrow> (Graph \<times> Store) \<times> Diagnostics"
  populateDeclareBlockNodes :: "Loader \<Rightarrow> Store \<Rightarrow> BlockStmt option list
      \<Rightarrow> (Template gomap \<times> string option) \<times> Graph option \<times> Store \<times> Diagnostics"
  ComponentReferences :: "Store \<Rightarrow> ref \<Rightarrow> Graph \<Rightarrow> ref list \<times> Diagnostics"
  DependsOn :: "string \<Rightarrow> string list"
  WalkTopological :: "Graph \<Rightarrow> ref list"
  evaluateNode :: "Store \<Rightarrow> int \<Rightarrow> ref \<Rightarrow> (Store \<times> int) \<times> EvalError option"
  ClearModuleExports :: "int \<Rightarrow> int"
  rangeDeclareLabels :: "BlockStmt list \<Rightarrow> string list"

subsection \<open>Building the graph\<close>

definition splitComponentBlocks :: "Loader \<Rightarrow> BlockStmt list \<Rightarrow> BlockStmt list \<times> BlockStmt list" where
  "splitComponentBlocks l bs =
     (filter (\<lambda>block. BlockComponentID block \<notin> set (services l)) bs,
      filter (\<lambda>block. BlockComponentID block \<in> set (services l)) bs)"

definition errorDiagnostic :: "string \<Rightarrow> Diagnostic" where
  "errorDiagnostic msg = \<lparr>Severity = SeverityLevelError, Message = msg\<rparr>"

text \<open>The \<open>%q\<close> rendering of a name made of identifiers and dots: the name between
  double quotes.\<close>

definition quoted :: "string \<Rightarrow> string" where
  "quoted s = [CHR 0x22] @ s @ [CHR 0x22]"

text \<open>\<open>MergeSubgraph\<close>: every node of the instantiated template goes into the new graph,
  except that a component node whose ID a component node of the previous graph carries
  gives way to that previous node, which takes over its block.\<close>

fun mergeNodes :: "Loader \<Rightarrow> ref list \<Rightarrow> Graph \<times> Store \<Rightarrow> Graph \<times> Store" where
  "mergeNodes l [] (new, h) = (new, h)"
| "mergeNodes l (node # rest) (new, h) =
     mergeNodes l rest
       (case GetByID (graph l) (NodeID (h ! node)) of
          Some existing \<Rightarrow>
            if nodeType (h ! existing) = ComponentNode \<and> nodeType (h ! node) = ComponentNode
            then (let h' = UpdateBlock existing (Block (h ! node)) h in (Add h' existing new, h'))
            else (Add h node new, h)
        | None \<Rightarrow> (Add h node new, h))"

definition MergeSubgraph :: "Loader \<Rightarrow> Graph \<times> Store \<Rightarrow> Graph \<Rightarrow> Graph \<times> Store" where
  "MergeSubgraph l st subgraph =
     (case mergeNodes l (nodes subgraph) st of (new, h) \<Rightarrow> (MergeEdges subgraph new, h))"

text \<open>The edges from the argument nodes of an instantiated template to the node of the
  declare component.\<close>

definition wireArguments :: "Store \<Rightarrow> string \<Rightarrow> ref \<Rightarrow> ref list \<Rightarrow> Graph \<Rightarrow> Graph" where
  "wireArguments h nid declareComponentNode ns g =
     fold (\<lambda>n g. if Namespace (h ! n) = nid \<and> nodeType (h ! n) = ArgumentConfigNode
                  then AddEdge (n, declareComponentNode) g else g) ns g"

text \<open>The component node of the previous graph that carries a given ID, if there is
  one.\<close>

definition previousComponent :: "Loader \<Rightarrow> Store \<Rightarrow> string \<Rightarrow> ref option" where
  "previousComponent l h nid =
     (case GetByID (graph l) nid of
        Some exist \<Rightarrow> if nodeType (h ! exist) = ComponentNode then Some exist else None
      | None \<Rightarrow> None)"

text \<open>
  \<open>populateComponentNodes\<close>. The state of its loop is the graph under construction, the
  store, the diagnostics and \<open>blockMap\<close>; \<open>populateComponentBlock\<close> is the body of the
  loop. The message of a redefinition leaves out the position of the first definition.
\<close>

type_synonym PopulateState = "(Graph \<times> Store) \<times> Diagnostics \<times> BlockStmt gomap"

definition populateComponentBlock :: "Loader \<Rightarrow> Template gomap \<Rightarrow> BlockStmt
    \<Rightarrow> PopulateState \<Rightarrow> PopulateState" where
  "populateComponentBlock l graphTemplates block st =
     (case st of ((g, h), diags, blockMap) \<Rightarrow>
        let nid = BlockComponentID block; componentName = GetBlockName block in
        if hasKey blockMap nid then
          ((g, h), diags @ [errorDiagnostic (''Component '' @ nid @ '' already declared'')], blockMap)
        else (case previousComponent l h nid of
          Some c \<Rightarrow>
            (let h' = UpdateBlock c (Some block) h
             in ((Add h' c g, h'), diags, AList.update nid block blockMap))
        | None \<Rightarrow>
        if Label block = [] then
          ((g, h),
           diags @ [errorDiagnostic (''Component '' @ quoted componentName @ '' must have a label'')],
           AList.update nid block blockMap)
        else (case map_of graphTemplates componentName of
            Some template \<Rightarrow>
              (case DeepClone template nid h of (clonedGraph, h1) \<Rightarrow>
               case MergeSubgraph l (g, h1) clonedGraph of (g1, h2) \<Rightarrow>
               case alloc \<lparr>nodeType = DeclareComponentNode, NodeID = nid, Namespace = [],
                           Block = Some block, managed = 0\<rparr> h2 of
                 (declareComponentNode, h3) \<Rightarrow>
                   ((wireArguments h3 nid declareComponentNode (nodes clonedGraph)
                       (Add h3 declareComponentNode g1), h3),
                    diags, AList.update nid block blockMap))
          | None \<Rightarrow>
              if componentName \<notin> set (registered l) then
                ((g, h),
                 diags @ [errorDiagnostic (''Unrecognized component name '' @ quoted componentName)],
                 AList.update nid block blockMap)
              else (case alloc \<lparr>nodeType = ComponentNode, NodeID = nid, Namespace = [],
                                 Block = Some block, managed = 0\<rparr> h of
                      (c, h') \<Rightarrow> ((Add h' c g, h'), diags, AList.update nid block blockMap)))))"

fun populateComponentNodes :: "Loader \<Rightarrow> Template gomap \<Rightarrow> BlockStmt list
    \<Rightarrow> PopulateState \<Rightarrow> PopulateState" where
  "populateComponentNodes l graphTemplates [] st = st"
| "populateComponentNodes l graphTemplates (block # rest) st =
     populateComponentNodes l graphTemplates rest
       (populateComponentBlock l graphTemplates block st)"

text \<open>\<open>wireGraphEdges\<close>: a node outside every namespace gains an edge to each service
  its service depends on, and to each node its expressions refer to.\<close>

fun wireServiceDependencies :: "ref \<Rightarrow> string list \<Rightarrow> Graph \<times> Diagnostics \<Rightarrow> Graph \<times> Diagnostics" where
  "wireServiceDependencies n [] st = st"
| "wireServiceDependencies n (depName # rest) (g, diags) =
     wireServiceDependencies n rest
       (case GetByID g depName of
          None \<Rightarrow> (g, diags @ [errorDiagnostic (''service has invalid reference to service '' @ quoted depName)])
        | Some dep \<Rightarrow> (AddEdge (n, dep) g, diags))"

fun wireNodes :: "LoadEnv \<Rightarrow> Store \<Rightarrow> ref list \<Rightarrow> Graph \<times> Diagnostics \<Rightarrow> Graph \<times> Diagnostics" where
  "wireNodes env h [] st = st"
| "wireNodes env h (n # rest) (g, diags) =
     wireNodes env h rest
       (if Namespace (h ! n) \<noteq> [] then (g, diags)
        else
          (case (if nodeType (h ! n) = ServiceNode
                 then wireServiceDependencies n (DependsOn env (NodeID (h ! n))) (g, diags)
                 else (g, diags)) of
             (g1, diags1) \<Rightarrow>
               (case ComponentReferences env h n g1 of
                  (refs, nodeDiags) \<Rightarrow>
                    (fold (\<lambda>target. AddEdge (n, target)) refs g1, diags1 @ nodeDiags))))"

definition wireGraphEdges :: "LoadEnv \<Rightarrow> Store \<Rightarrow> Graph \<Rightarrow> Graph \<times> Diagnostics" where
  "wireGraphEdges env h g = wireNodes env h (nodes g) (g, [])"

definition multierrToDiags :: "string list \<Rightarrow> Diagnostics" where
  "multierrToDiags errors = map errorDiagnostic errors"

text \<open>
  \<open>loadNewGraph\<close>, as \<open>Apply\<close> calls it (not within a declare block), in three
  parts. \<open>populateBeforeComponents\<close> is the function up to the templates: it yields the
  graph and the store after the service and config nodes, the templates (with the error
  of their retrieval, if any), the graph a template construction may have stored as
  \<open>originalGraph\<close>, and the diagnostics so far. \<open>populateAndWire\<close> adds the component
  nodes and wires the edges: it yields the wired graph, the diagnostics and the loader
  with the store as the population has written it. The rest validates the graph and, when
  it has no cycle, keeps a copy as \<open>originalGraph\<close> and returns the reduced graph.
\<close>

definition populateBeforeComponents :: "LoadEnv \<Rightarrow> Loader \<Rightarrow> ModuleArgs \<Rightarrow> BlockStmt list
    \<Rightarrow> BlockStmt list \<Rightarrow> BlockStmt list \<Rightarrow> bool
    \<Rightarrow> (Graph \<times> Store) \<times> (Template gomap \<times> string option) \<times> Graph option \<times> Diagnostics" where
  "populateBeforeComponents env l args componentBlocks0 configBlocks declareBlocks inModule =
     (case populateServiceNodes env l (emptyGraph, store l)
             (snd (splitComponentBlocks l componentBlocks0)) of (st1, diags1) \<Rightarrow>
      case populateConfigBlockNodes env l args st1 configBlocks inModule of
        ((g2, h2), configBlockDiags) \<Rightarrow>
      case SortDeclareBlocks (rangeDeclareLabels env declareBlocks) declareBlocks of
        (sortedDeclaredBlocks, sortDeclareBlockDiags) \<Rightarrow>
      case populateDeclareBlockNodes env l h2 sortedDeclaredBlocks of
        (templates, templateGraph, h3, declareBlockDiags) \<Rightarrow>
          ((g2, h3), templates, templateGraph,
           diags1 @ configBlockDiags @ sortDeclareBlockDiags @ declareBlockDiags))"

definition populateAndWire :: "LoadEnv \<Rightarrow> Loader \<Rightarrow> ModuleArgs \<Rightarrow> BlockStmt list \<Rightarrow> BlockStmt list
    \<Rightarrow> BlockStmt list \<Rightarrow> bool \<Rightarrow> Graph \<times> Diagnostics \<times> Loader" where
  "populateAndWire env l args componentBlocks0 configBlocks declareBlocks inModule =
     (case populateBeforeComponents env l args componentBlocks0 configBlocks declareBlocks inModule
      of (st3, (graphTemplates, templatesErr), templateGraph, diags3) \<Rightarrow>
      case populateComponentNodes l graphTemplates (fst (splitComponentBlocks l componentBlocks0))
             (st3, (case templatesErr of None \<Rightarrow> [] | Some msg \<Rightarrow> [errorDiagnostic msg]), [])
      of ((g4, h4), componentNodeDiags, blockMap) \<Rightarrow>
      case wireGraphEdges env h4 g4 of (g, wireDiags) \<Rightarrow>
        (g,
         diags3 @ componentNodeDiags @ wireDiags,
         l\<lparr>store := h4,
           originalGraph := (case templateGraph of None \<Rightarrow> originalGraph l | Some t \<Rightarrow> t)\<rparr>))"

definition loadNewGraph :: "LoadEnv \<Rightarrow> Loader \<Rightarrow> ModuleArgs \<Rightarrow> BlockStmt list \<Rightarrow> BlockStmt list
    \<Rightarrow> BlockStmt list \<Rightarrow> bool \<Rightarrow> Graph \<times> Diagnostics \<times> Loader" where
  "loadNewGraph env l args componentBlocks configBlocks declareBlocks inModule =
     (case populateAndWire env l args componentBlocks configBlocks declareBlocks inModule of
        (g, diags, l') \<Rightarrow>
          if Validate (store l') g \<noteq> []
          then (g, diags @ multierrToDiags (Validate (store l') g), l')
          else (Reduce g, diags, l'\<lparr>originalGraph := Clone g\<rparr>))"

subsection \<open>Apply\<close>

text \<open>One visit of the evaluation walk: the node is evaluated, a component or service
  node is collected, and a failed evaluation becomes diagnostics.\<close>

definition evalDiagnostics :: "string \<Rightarrow> EvalError option \<Rightarrow> Diagnostics" where
  "evalDiagnostics what err =
     (case err of
        None \<Rightarrow> []
      | Some e \<Rightarrow>
          (case asDiagnostics e of
             Some evalDiags \<Rightarrow> evalDiags
           | None \<Rightarrow> [errorDiagnostic (what @ errorText e)]))"

definition evaluate :: "LoadEnv \<Rightarrow> Loader \<Rightarrow> ref \<Rightarrow> Loader \<times> EvalError option" where
  "evaluate env l n =
     (case evaluateNode env (store l) (exportChangeIndex l) n of
        ((h, idx), err) \<Rightarrow>
          (l\<lparr>store := h, exportChangeIndex := idx, evaluated := evaluated l @ [n]\<rparr>, err))"

fun evaluateAll :: "LoadEnv \<Rightarrow> ref list \<Rightarrow> Loader \<times> ref list \<times> ref list \<times> Diagnostics
    \<Rightarrow> Loader \<times> ref list \<times> ref list \<times> Diagnostics" where
  "evaluateAll env [] st = st"
| "evaluateAll env (n # rest) (l, components, servs, diags) =
     evaluateAll env rest
       (case evaluate env l n of
          (l', err) \<Rightarrow>
            (case nodeType (store l ! n) of
               ComponentNode \<Rightarrow>
                 (l', components @ [n], servs,
                  diags @ evalDiagnostics ''Failed to build component: '' err)
             | ServiceNode \<Rightarrow>
                 (l', components, servs @ [n],
                  diags @ evalDiagnostics ''Failed to evaluate service: '' err)
             | DeclareComponentNode \<Rightarrow>
                 (l', components, servs,
                  diags @ evalDiagnostics ''Failed to evaluate declare component node: '' err)
             | _ \<Rightarrow>
                 (l', components, servs,
                  diags @ (case err of None \<Rightarrow> []
                           | Some e \<Rightarrow>
                               [errorDiagnostic (''Failed to evaluate node for config block: ''
                                  @ errorText e)]))))"

definition Apply :: "LoadEnv \<Rightarrow> Loader \<Rightarrow> ModuleArgs \<Rightarrow> BlockStmt list \<Rightarrow> BlockStmt list
    \<Rightarrow> BlockStmt list \<Rightarrow> Diagnostics \<times> Loader" where
  "Apply env l args componentBlocks configBlocks declareBlocks =
     (case loadNewGraph env l args componentBlocks configBlocks declareBlocks (isModule l) of
        (newGraph, diags, l1) \<Rightarrow>
          if HasErrors diags then (diags, l1)
          else
            (case evaluateAll env (WalkTopological env newGraph)
                    (l1\<lparr>exportChangeIndex := ClearModuleExports env (exportChangeIndex l1)\<rparr>,
                     [], [], diags) of
               (l2, components, servs, diags') \<Rightarrow>
                 (let l3 = l2\<lparr>componentNodes := components, serviceNodes := servs,
                              graph := newGraph, blocks := componentBlocks\<rparr>
                  in (diags',
                      if hasOnExportsChange l3 \<and> exportChangeIndex l3 \<noteq> moduleExportIndex l3
                      then l3\<lparr>moduleExportIndex := exportChangeIndex l3,
                              notified := notified l3 @ [exportChangeIndex l3]\<rparr>
                      else l3))))"

subsection \<open>EvaluateDependencies: the dependants of the updated components\<close>

text \<open>The first loop of \<open>EvaluateDependencies\<close>: \<open>dependenciesToParentsMap\<close>, from each node
  with an edge into an updated component to that component; a later component of the
  batch overwrites an earlier one.\<close>

fun collectDependants :: "Graph \<Rightarrow> ref list \<Rightarrow> (ref \<times> ref) list \<Rightarrow> (ref \<times> ref) list" where
  "collectDependants g [] m = m"
| "collectDependants g (parent # rest) m =
     collectDependants g rest
       (fold (\<lambda>n. AList.update n parent) (WalkIncomingNodes g parent) m)"

definition dependenciesToParentsMap :: "Loader \<Rightarrow> ref list \<Rightarrow> (ref \<times> ref) list" where
  "dependenciesToParentsMap l updatedNodes = collectDependants (graph l) updatedNodes []"


section \<open>Verification of the declare-block sort\<close>

subsection \<open>Reading the maps\<close>

lemma getList_update_same [simp]: "getList (AList.update k v m) k = v"
  by (simp add: getList_def update_conv')

lemma getList_update_other [simp]: "k' \<noteq> k \<Longrightarrow> getList (AList.update k v m) k' = getList m k'"
  by (simp add: getList_def update_conv')

lemma hasKey_iff: "hasKey m k = (k \<in> fst ` set m)"
  by (simp add: hasKey_def map_of_eq_None_iff)

subsection \<open>Vocabulary of the statements\<close>

text \<open>The last block of a list that carries a given label: the block a label stands for
  after the first loop of \<open>SortDeclareBlocks\<close>.\<close>

fun lastWithLabel :: "BlockStmt list \<Rightarrow> string \<Rightarrow> BlockStmt option" where
  "lastWithLabel [] l = None"
| "lastWithLabel (b # bs) l =
     (case lastWithLabel bs l of
        Some b' \<Rightarrow> Some b'
      | None \<Rightarrow> if Label b = l then Some b else None)"

text \<open>The dependency edges the second loop walks, as pairs (dependency, dependent), in
  the order in which it meets them.\<close>

definition dependencyEdges :: "BlockStmt gomap \<Rightarrow> BlockStmt list \<Rightarrow> (string \<times> string) list" where
  "dependencyEdges blockByLabel bs =
     concat (map (\<lambda>b. map (\<lambda>dep. (dep, Label b)) (findDeclareDependencies b blockByLabel)) bs)"

lemma lastWithLabel_Label: "lastWithLabel bs l = Some b \<Longrightarrow> Label b = l \<and> b \<in> set bs"
  by (induction bs) (auto split: option.splits if_splits)

lemma lastWithLabel_None: "(lastWithLabel bs l = None) = (l \<notin> Label ` set bs)"
  by (induction bs) (auto split: option.splits)

lemma indexBlocks_spec:
  "indexBlocks bs (g, m) = (g', m') \<Longrightarrow>
     (distinct (map fst m) \<longrightarrow> distinct (map fst m'))
   \<and> fst ` set m' = fst ` set m \<union> Label ` set bs
   \<and> (\<forall>l. map_of m' l = (case lastWithLabel bs l of Some b \<Rightarrow> Some b | None \<Rightarrow> map_of m l))
   \<and> (\<forall>d. getList g' d = getList g d)"
proof (induction bs arbitrary: g m)
  case Nil
  then show ?case by simp
next
  case (Cons b bs)
  let ?g = "if hasKey g (Label b) then g else AList.update (Label b) [] g"
  let ?m = "AList.update (Label b) b m"
  from Cons.prems have run: "indexBlocks bs (?g, ?m) = (g', m')" by simp
  note IH = Cons.IH [OF run]
  have g_same: "getList ?g d = getList g d" for d
    by (cases "d = Label b") (auto simp: getList_def hasKey_def update_conv')
  have "distinct (map fst m) \<longrightarrow> distinct (map fst m')"
    using IH by (simp add: distinct_update)
  moreover have "fst ` set m' = fst ` set (b_m :: BlockStmt gomap) \<union> Label ` set (b # bs)"
    if "b_m = m" for b_m
    using IH that by (auto simp: dom_update)
  moreover have "map_of m' l = (case lastWithLabel (b # bs) l of Some b \<Rightarrow> Some b | None \<Rightarrow> map_of m l)" for l
    using IH by (auto simp: update_conv' split: option.splits)
  moreover have "getList g' d = getList g d" for d
    using IH g_same by simp
  ultimately show ?case by blast
qed

lemma findDeclareDependencies_keys:
  "set (findDeclareDependencies b m) \<subseteq> fst ` set m"
  "set (findInBody body m) \<subseteq> fst ` set m"
  by (induction b m and body m rule: findDeclareDependencies_findInBody.induct)
     (auto simp: Let_def hasKey_iff)

lemma addDependencies_spec:
  "addDependencies label deps (g, I) = (g', I') \<Longrightarrow>
     (\<forall>d. getList g' d = getList g d @ map snd (filter (\<lambda>e. fst e = d) (map (\<lambda>dep. (dep, label)) deps)))
   \<and> (\<forall>l. getInt I' l = getInt I l + int (length (filter (\<lambda>e. snd e = l) (map (\<lambda>dep. (dep, label)) deps))))"
proof (induction deps arbitrary: g I)
  case Nil
  then show ?case by simp
next
  case (Cons dep deps)
  let ?g = "AList.update dep (getList g dep @ [label]) g"
  let ?I = "AList.update label (getInt I label + 1) I"
  from Cons.prems have run: "addDependencies label deps (?g, ?I) = (g', I')" by simp
  note IH = Cons.IH [OF run]
  have "getList g' d = getList g d @ map snd (filter (\<lambda>e. fst e = d) (map (\<lambda>dep. (dep, label)) (dep # deps)))" for d
    using IH by (cases "d = dep") simp_all
  moreover have "getInt I' l = getInt I l + int (length (filter (\<lambda>e. snd e = l) (map (\<lambda>dep. (dep, label)) (dep # deps))))" for l
    using IH by (cases "l = label") simp_all
  ultimately show ?case by blast
qed

lemma countDependencies_spec:
  "countDependencies m bs (g, I) = (g', I') \<Longrightarrow>
     (\<forall>d. getList g' d = getList g d @ map snd (filter (\<lambda>e. fst e = d) (dependencyEdges m bs)))
   \<and> (\<forall>l. getInt I' l = getInt I l + int (length (filter (\<lambda>e. snd e = l) (dependencyEdges m bs))))"
proof (induction bs arbitrary: g I)
  case Nil
  then show ?case by (simp add: dependencyEdges_def)
next
  case (Cons b bs)
  obtain g1 I1 where step: "addDependencies (Label b) (findDeclareDependencies b m) (g, I) = (g1, I1)"
    by (cases "addDependencies (Label b) (findDeclareDependencies b m) (g, I)")
  with Cons.prems have run: "countDependencies m bs (g1, I1) = (g', I')" by simp
  note IH = Cons.IH [OF run]
  note S = addDependencies_spec [OF step]
  have E: "dependencyEdges m (b # bs) =
      map (\<lambda>dep. (dep, Label b)) (findDeclareDependencies b m) @ dependencyEdges m bs"
    by (simp add: dependencyEdges_def)
  show ?case using IH S by (simp add: E)
qed

subsection \<open>The inner loop\<close>

lemma releaseDependents_spec:
  "releaseDependents ds (I, q) = (I', q') \<Longrightarrow> \<forall>l. int (count_list ds l) \<le> getInt I l \<Longrightarrow>
     (\<forall>l. getInt I' l = getInt I l - int (count_list ds l))
   \<and> (\<exists>zs. q' = q @ zs \<and> distinct zs
          \<and> set zs = {l \<in> set ds. getInt I l = int (count_list ds l)})"
proof (induction ds arbitrary: I q)
  case Nil
  then show ?case by simp
next
  case (Cons d ds)
  let ?I = "AList.update d (getInt I d - 1) I"
  let ?q = "if getInt I d - 1 = 0 then q @ [d] else q"
  from Cons.prems(1) have run: "releaseDependents ds (?I, ?q) = (I', q')"
    by (simp add: Let_def)
  have pre: "\<forall>l. int (count_list ds l) \<le> getInt ?I l"
  proof
    fix l
    from Cons.prems(2) have "int (count_list (d # ds) l) \<le> getInt I l" by blast
    then show "int (count_list ds l) \<le> getInt ?I l"
      by (cases "l = d") simp_all
  qed
  from Cons.IH [OF run pre] obtain zs where
    deg: "\<And>l. getInt I' l = getInt ?I l - int (count_list ds l)" and
    q': "q' = ?q @ zs" and dist: "distinct zs" and
    zs: "set zs = {l \<in> set ds. getInt ?I l = int (count_list ds l)}"
    by blast
  have deg': "getInt I' l = getInt I l - int (count_list (d # ds) l)" for l
    using deg [of l] by (cases "l = d") simp_all
  from Cons.prems(2) have d_le: "int (count_list ds d) + 1 \<le> getInt I d"
    by (metis count_list.simps(2) of_nat_Suc add.commute of_nat_1 of_nat_add)
  show ?case
  proof (cases "getInt I d - 1 = 0")
    case True
    with d_le have "count_list ds d = 0" by simp
    then have d_notin: "d \<notin> set ds" by (simp add: count_list_0_iff)
    with zs have "d \<notin> set zs" by simp
    with dist have "distinct (d # zs)" by simp
    moreover from q' True have "q' = q @ (d # zs)" by simp
    moreover have "set (d # zs) = {l \<in> set (d # ds). getInt I l = int (count_list (d # ds) l)}"
    proof (rule set_eqI)
      fix l
      show "(l \<in> set (d # zs)) = (l \<in> {l \<in> set (d # ds). getInt I l = int (count_list (d # ds) l)})"
      proof (cases "l = d")
        case True
        with \<open>getInt I d - 1 = 0\<close> \<open>count_list ds d = 0\<close> show ?thesis by simp
      next
        case False
        then show ?thesis using zs by simp
      qed
    qed
    ultimately show ?thesis using deg' by blast
  next
    case False
    from q' False have "q' = q @ zs" by simp
    moreover have "set zs = {l \<in> set (d # ds). getInt I l = int (count_list (d # ds) l)}"
    proof -
      have "d \<in> set ds" if "getInt I d = int (count_list ds d) + 1"
      proof -
        from that False have "count_list ds d \<noteq> 0" by simp
        then show ?thesis by (simp add: count_list_0_iff)
      qed
      then have dcase: "(d \<in> set ds \<and> getInt I d - 1 = int (count_list ds d))
          = (getInt I d = int (count_list ds d) + 1)" by auto
      show ?thesis
      proof (rule set_eqI)
        fix l
        show "(l \<in> set zs) = (l \<in> {l \<in> set (d # ds). getInt I l = int (count_list (d # ds) l)})"
        proof (cases "l = d")
          case True
          then show ?thesis using zs dcase by (simp add: add.commute)
        next
          case False
          then show ?thesis using zs by simp
        qed
      qed
    qed
    ultimately show ?thesis using deg' dist by blast
  qed
qed

subsection \<open>The invariant of the main loop\<close>

text \<open>
  \<open>kahnFrame\<close> ties the successor map to the edge list. \<open>kahnInv\<close> is the loop
  invariant, over the labels \<open>SL\<close> emitted so far: emitted and queued labels are distinct
  labels of the map; the in-degree of a label counts its edges from labels not yet
  emitted; a label has in-degree zero exactly when it is emitted or queued; and every
  dependency of an emitted label was emitted before it.
\<close>

definition kahnFrame :: "(string \<times> string) list \<Rightarrow> (string list) gomap \<Rightarrow> BlockStmt gomap \<Rightarrow> bool" where
  "kahnFrame E gr m =
     ((\<forall>d. getList gr d = map snd (filter (\<lambda>e. fst e = d) E))
    \<and> (\<forall>e \<in> set E. fst e \<in> fst ` set m \<and> snd e \<in> fst ` set m))"

definition kahnInv :: "(string \<times> string) list \<Rightarrow> BlockStmt gomap
    \<Rightarrow> string list \<Rightarrow> int gomap \<Rightarrow> string list \<Rightarrow> bool" where
  "kahnInv E m q I SL =
     (distinct (SL @ q) \<and> set (SL @ q) \<subseteq> fst ` set m
    \<and> (\<forall>l. getInt I l = int (length (filter (\<lambda>e. snd e = l \<and> fst e \<notin> set SL) E)))
    \<and> (\<forall>l \<in> fst ` set m. (getInt I l = 0) = (l \<in> set (SL @ q)))
    \<and> (\<forall>e \<in> set E. snd e \<in> set SL \<longrightarrow> fst e \<in> set (takeWhile (\<lambda>x. x \<noteq> snd e) SL)))"

lemma count_list_map_filter:
  "count_list (map snd (filter P E)) l = length (filter (\<lambda>e. P e \<and> snd e = l) E)"
  by (induction E) auto

lemma length_filter_split:
  "length (filter Q E) = length (filter (\<lambda>e. Q e \<and> P e) E) + length (filter (\<lambda>e. Q e \<and> \<not> P e) E)"
  by (induction E) auto

lemma length_filter_mono:
  "(\<And>e. e \<in> set E \<Longrightarrow> P e \<Longrightarrow> Q e) \<Longrightarrow> length (filter P E) \<le> length (filter Q E)"
  by (induction E) auto

lemma kahn_step:
  assumes frame: "kahnFrame E g m"
    and inv: "kahnInv E m (label # rest) I SL"
    and run: "releaseDependents (getList g label) (I, rest) = (I', q')"
  shows "kahnInv E m q' I' (SL @ [label])"
proof -
  let ?L = "fst ` set m"
  let ?ds = "getList g label"
  from frame have ds: "?ds = map snd (filter (\<lambda>e. fst e = label) E)"
    and ends: "\<And>e. e \<in> set E \<Longrightarrow> fst e \<in> ?L \<and> snd e \<in> ?L"
    by (auto simp: kahnFrame_def)
  from inv have dist: "distinct (SL @ label # rest)"
    and sub: "set (SL @ label # rest) \<subseteq> ?L"
    and deg: "\<And>l. getInt I l = int (length (filter (\<lambda>e. snd e = l \<and> fst e \<notin> set SL) E))"
    and zero: "\<And>l. l \<in> ?L \<Longrightarrow> (getInt I l = 0) = (l \<in> set (SL @ label # rest))"
    and ord: "\<And>e. e \<in> set E \<Longrightarrow> snd e \<in> set SL \<Longrightarrow> fst e \<in> set (takeWhile (\<lambda>x. x \<noteq> snd e) SL)"
    by (auto simp: kahnInv_def)
  from dist have label_new: "label \<notin> set SL" by simp
  from sub have label_L: "label \<in> ?L" by simp
  have cnt: "count_list ?ds l = length (filter (\<lambda>e. fst e = label \<and> snd e = l) E)" for l
    by (simp add: ds count_list_map_filter)
  have split: "length (filter (\<lambda>e. snd e = l \<and> fst e \<notin> set SL) E)
      = count_list ?ds l + length (filter (\<lambda>e. snd e = l \<and> fst e \<notin> set (SL @ [label])) E)" for l
  proof -
    have "length (filter (\<lambda>e. snd e = l \<and> fst e \<notin> set SL) E)
        = length (filter (\<lambda>e. (snd e = l \<and> fst e \<notin> set SL) \<and> fst e = label) E)
        + length (filter (\<lambda>e. (snd e = l \<and> fst e \<notin> set SL) \<and> \<not> fst e = label) E)"
      by (rule length_filter_split)
    moreover have "filter (\<lambda>e. (snd e = l \<and> fst e \<notin> set SL) \<and> fst e = label) E
        = filter (\<lambda>e. fst e = label \<and> snd e = l) E"
      using label_new by (intro filter_cong) auto
    moreover have "filter (\<lambda>e. (snd e = l \<and> fst e \<notin> set SL) \<and> \<not> fst e = label) E
        = filter (\<lambda>e. snd e = l \<and> fst e \<notin> set (SL @ [label])) E"
      by (intro filter_cong) auto
    ultimately show ?thesis by (simp add: cnt)
  qed
  have pre: "\<forall>l. int (count_list ?ds l) \<le> getInt I l"
    using split by (simp add: deg)
  from releaseDependents_spec [OF run pre] obtain zs where
    deg': "\<And>l. getInt I' l = getInt I l - int (count_list ?ds l)" and
    q': "q' = rest @ zs" and dzs: "distinct zs" and
    zs: "set zs = {l \<in> set ?ds. getInt I l = int (count_list ?ds l)}"
    by blast
  have new_deg: "getInt I' l = int (length (filter (\<lambda>e. snd e = l \<and> fst e \<notin> set (SL @ [label])) E))" for l
    using split [of l] by (simp add: deg' deg)
  have ds_L: "set ?ds \<subseteq> ?L"
    using ends by (auto simp: ds)
  have pos: "0 < count_list ?ds l" if "l \<in> set ?ds" for l
    using that count_list_0_iff [of ?ds l] by simp
  have zs_fresh: "l \<notin> set (SL @ label # rest)" if "l \<in> set zs" for l
  proof -
    from that zs have "l \<in> set ?ds" and "getInt I l = int (count_list ?ds l)" by auto
    with pos [of l] have "getInt I l \<noteq> 0" by simp
    moreover from \<open>l \<in> set ?ds\<close> ds_L have "l \<in> ?L" by blast
    ultimately show ?thesis using zero [of l] by simp
  qed
  have c1: "distinct ((SL @ [label]) @ q')"
    using dist dzs zs_fresh by (auto simp: q')
  have c2: "set ((SL @ [label]) @ q') \<subseteq> ?L"
    using sub zs ds_L by (auto simp: q')
  have c4: "(getInt I' l = 0) = (l \<in> set ((SL @ [label]) @ q'))" if lL: "l \<in> ?L" for l
  proof
    assume z: "getInt I' l = 0"
    with deg' [of l] have eq: "getInt I l = int (count_list ?ds l)" by simp
    show "l \<in> set ((SL @ [label]) @ q')"
    proof (cases "count_list ?ds l = 0")
      case True
      with eq have "getInt I l = 0" by simp
      with zero [OF lL] show ?thesis by (auto simp: q')
    next
      case False
      then have "l \<in> set ?ds" by (simp add: count_list_0_iff)
      with eq zs have "l \<in> set zs" by simp
      then show ?thesis by (simp add: q')
    qed
  next
    assume "l \<in> set ((SL @ [label]) @ q')"
    then consider "l \<in> set (SL @ label # rest)" | "l \<in> set zs" by (auto simp: q')
    then show "getInt I' l = 0"
    proof cases
      case 1
      with zero [OF lL] have "getInt I l = 0" by simp
      moreover from pre have "int (count_list ?ds l) \<le> getInt I l" by blast
      ultimately show ?thesis using deg' [of l] by simp
    next
      case 2
      with zs have "getInt I l = int (count_list ?ds l)" by simp
      then show ?thesis using deg' [of l] by simp
    qed
  qed
  have c5: "fst e \<in> set (takeWhile (\<lambda>x. x \<noteq> snd e) (SL @ [label]))"
    if eE: "e \<in> set E" and mem: "snd e \<in> set (SL @ [label])" for e
  proof (cases "snd e \<in> set SL")
    case True
    then have "takeWhile (\<lambda>x. x \<noteq> snd e) (SL @ [label]) = takeWhile (\<lambda>x. x \<noteq> snd e) SL"
      by (intro takeWhile_append1 [of "snd e"]) auto
    with ord [OF eE True] show ?thesis by simp
  next
    case False
    with mem have is_label: "snd e = label" by simp
    with label_new have "takeWhile (\<lambda>x. x \<noteq> snd e) (SL @ [label]) = SL @ takeWhile (\<lambda>x. x \<noteq> snd e) [label]"
      by (intro takeWhile_append2) auto
    then have tw: "takeWhile (\<lambda>x. x \<noteq> snd e) (SL @ [label]) = SL" using is_label by simp
    from zero [OF label_L] have "getInt I label = 0" by simp
    with deg [of label] have "filter (\<lambda>e. snd e = label \<and> fst e \<notin> set SL) E = []" by simp
    then have "\<not> (snd e = label \<and> fst e \<notin> set SL)"
      using eE by (auto simp: filter_empty_conv)
    with is_label have "fst e \<in> set SL" by simp
    with tw show ?thesis by simp
  qed
  show ?thesis
    unfolding kahnInv_def using c1 c2 new_deg c4 c5 by blast
qed

lemma kahnLoop_Nil: "kahnLoop g m ([], I, S) = (S, I)"
  by (subst kahnLoop.simps) simp

lemma kahnLoop_Cons:
  "releaseDependents (getList g label) (I, rest) = (I', q') \<Longrightarrow>
   kahnLoop g m (label # rest, I, S) = kahnLoop g m (q', I', S @ [map_of m label])"
  by (subst kahnLoop.simps) simp

lemma kahnLoop_inv:
  "kahnFrame E g m \<Longrightarrow> kahnInv E m q I SL \<Longrightarrow> S = map (map_of m) SL \<Longrightarrow>
   kahnLoop g m (q, I, S) = (S', I') \<Longrightarrow>
   \<exists>SL'. S' = map (map_of m) SL' \<and> kahnInv E m [] I' SL'"
proof (induction g m "(q, I, S)" arbitrary: q I S SL rule: kahnLoop.induct)
  case (1 gr blockByLabel queue inDegree sortedList)
  show ?case
  proof (cases queue)
    case Nil
    with "1.prems" show ?thesis by (auto simp: kahnLoop_Nil)
  next
    case (Cons label rest)
    obtain I1 q1 where rel: "releaseDependents (getList gr label) (inDegree, rest) = (I1, q1)"
      by (cases "releaseDependents (getList gr label) (inDegree, rest)")
    from "1.prems"(2) Cons have inv: "kahnInv E blockByLabel (label # rest) inDegree SL" by simp
    from kahn_step [OF "1.prems"(1) inv rel]
    have inv': "kahnInv E blockByLabel q1 I1 (SL @ [label])" .
    from "1.prems"(3) have S': "sortedList @ [map_of blockByLabel label] = map (map_of blockByLabel) (SL @ [label])"
      by simp
    from "1.prems"(4) Cons rel
    have run: "kahnLoop gr blockByLabel (q1, I1, sortedList @ [map_of blockByLabel label]) = (S', I')"
      by (simp add: kahnLoop_Cons [OF rel])
    from "1.hyps" [OF Cons rel [symmetric] "1.prems"(1) inv' S' run]
    show ?thesis .
  qed
qed

subsection \<open>The label-dependency graph\<close>

text \<open>
  \<open>blockIndex\<close> is \<open>blockByLabel\<close> as the first loop leaves it. \<open>dependsOn\<close> is the
  label-dependency graph: the pair \<open>(a, b)\<close> says that a declare block labelled \<open>b\<close>
  depends on the label \<open>a\<close>, by \<open>findDeclareDependencies\<close>. \<open>precedes a b xs\<close> says
  that \<open>a\<close> stands in \<open>xs\<close> before the first \<open>b\<close>.
\<close>

definition blockIndex :: "BlockStmt list \<Rightarrow> BlockStmt gomap" where
  "blockIndex bs = snd (indexBlocks bs ([], []))"

definition dependsOn :: "BlockStmt list \<Rightarrow> (string \<times> string) set" where
  "dependsOn bs = set (dependencyEdges (blockIndex bs) bs)"

definition precedes :: "string \<Rightarrow> string \<Rightarrow> string list \<Rightarrow> bool" where
  "precedes a b xs = (a \<in> set (takeWhile (\<lambda>x. x \<noteq> b) xs))"

lemma addDependencies_distinct:
  "addDependencies label deps (g, I) = (g', I') \<Longrightarrow> distinct (map fst I) \<Longrightarrow> distinct (map fst I')"
  by (induction deps arbitrary: g I) (auto simp: distinct_update)

lemma countDependencies_distinct:
  "countDependencies m bs (g, I) = (g', I') \<Longrightarrow> distinct (map fst I) \<Longrightarrow> distinct (map fst I')"
proof (induction bs arbitrary: g I)
  case Nil
  then show ?case by simp
next
  case (Cons b bs)
  obtain g1 I1 where step: "addDependencies (Label b) (findDeclareDependencies b m) (g, I) = (g1, I1)"
    by (cases "addDependencies (Label b) (findDeclareDependencies b m) (g, I)")
  with Cons.prems have run: "countDependencies m bs (g1, I1) = (g', I')" by simp
  from addDependencies_distinct [OF step Cons.prems(2)] Cons.IH [OF run] show ?case by simp
qed

lemma releaseDependents_distinct:
  "releaseDependents ds (I, q) = (I', q') \<Longrightarrow> distinct (map fst I) \<Longrightarrow> distinct (map fst I')"
  by (induction ds arbitrary: I q) (auto simp: distinct_update Let_def)

lemma kahnLoop_distinct:
  "kahnLoop g m (q, I, S) = (S', I') \<Longrightarrow> distinct (map fst I) \<Longrightarrow> distinct (map fst I')"
proof (induction g m "(q, I, S)" arbitrary: q I S rule: kahnLoop.induct)
  case (1 gr blockByLabel queue inDegree sortedList)
  show ?case
  proof (cases queue)
    case Nil
    with "1.prems" show ?thesis by (simp add: kahnLoop_Nil)
  next
    case (Cons label rest)
    obtain I1 q1 where rel: "releaseDependents (getList gr label) (inDegree, rest) = (I1, q1)"
      by (cases "releaseDependents (getList gr label) (inDegree, rest)")
    from "1.prems"(1) Cons
    have run: "kahnLoop gr blockByLabel (q1, I1, sortedList @ [map_of blockByLabel label]) = (S', I')"
      by (simp add: kahnLoop_Cons [OF rel])
    from "1.hyps" [OF Cons rel [symmetric] run releaseDependents_distinct [OF rel "1.prems"(2)]]
    show ?thesis .
  qed
qed

text \<open>What a run of the sort establishes, for any enumeration of the labels.\<close>

lemma declareSortRun_spec:
  assumes ord: "distinct rangeOrder" "set rangeOrder = Label ` set bs"
  obtains SL I' where
    "declareSortRun rangeOrder bs = ((map (map_of (blockIndex bs)) SL, I'), blockIndex bs)"
    "kahnInv (dependencyEdges (blockIndex bs) bs) (blockIndex bs) [] I' SL"
    "distinct (map fst I')"
    "distinct (map fst (blockIndex bs))"
    "fst ` set (blockIndex bs) = Label ` set bs"
    "\<And>l. map_of (blockIndex bs) l = lastWithLabel bs l"
    "\<And>e. e \<in> set (dependencyEdges (blockIndex bs) bs) \<Longrightarrow> fst e \<in> Label ` set bs \<and> snd e \<in> Label ` set bs"
proof -
  let ?m = "blockIndex bs"
  let ?E = "dependencyEdges ?m bs"
  obtain g0 where idx: "indexBlocks bs ([], []) = (g0, ?m)"
    by (cases "indexBlocks bs ([], [])") (simp add: blockIndex_def)
  from indexBlocks_spec [OF idx]
  have m_dist: "distinct (map fst ?m)" and m_keys: "fst ` set ?m = Label ` set bs"
    and m_last: "\<And>l. map_of ?m l = lastWithLabel bs l"
    and g0_empty: "\<And>d. getList g0 d = []"
    by (auto simp: getList_def split: option.splits)
  obtain g I where cnt: "countDependencies ?m bs (g0, []) = (g, I)"
    by (cases "countDependencies ?m bs (g0, [])")
  from countDependencies_spec [OF cnt]
  have g: "\<And>d. getList g d = map snd (filter (\<lambda>e. fst e = d) ?E)"
    and I: "\<And>l. getInt I l = int (length (filter (\<lambda>e. snd e = l) ?E))"
    by (auto simp: g0_empty getInt_def)
  from countDependencies_distinct [OF cnt] have I_dist: "distinct (map fst I)" by simp
  have ends: "fst e \<in> Label ` set bs \<and> snd e \<in> Label ` set bs" if "e \<in> set ?E" for e
  proof -
    from that obtain b dep where b: "b \<in> set bs" and dep: "dep \<in> set (findDeclareDependencies b ?m)"
      and e: "e = (dep, Label b)"
      by (auto simp: dependencyEdges_def)
    from dep findDeclareDependencies_keys(1) [of b ?m] have "dep \<in> fst ` set ?m" by blast
    with m_keys b e show ?thesis by auto
  qed
  have frame: "kahnFrame ?E g ?m"
    unfolding kahnFrame_def using g ends m_keys by auto
  let ?q = "filter (\<lambda>label. getInt I label = 0) rangeOrder"
  have inv0: "kahnInv ?E ?m ?q I []"
    unfolding kahnInv_def using ord m_keys I by auto
  obtain S' I' where loop: "kahnLoop g ?m (?q, I, []) = (S', I')"
    by (cases "kahnLoop g ?m (?q, I, [])")
  from kahnLoop_inv [OF frame inv0 _ loop] obtain SL where
    S': "S' = map (map_of ?m) SL" and inv: "kahnInv ?E ?m [] I' SL"
    by auto
  from kahnLoop_distinct [OF loop I_dist] have I'_dist: "distinct (map fst I')" .
  have "declareSortRun rangeOrder bs = ((map (map_of ?m) SL, I'), ?m)"
    by (simp add: declareSortRun_def idx cnt loop S')
  then show ?thesis
    using that inv I'_dist m_dist m_keys m_last ends by blast
qed

text \<open>When the queue has run dry, the labels still unemitted all wait for one another.\<close>

lemma kahn_complete:
  assumes inv: "kahnInv E m [] I SL"
    and ends: "\<And>e. e \<in> set E \<Longrightarrow> fst e \<in> fst ` set m"
    and acyc: "acyclic (set E)"
  shows "set SL = fst ` set m"
proof (rule ccontr)
  assume neq: "set SL \<noteq> fst ` set m"
  from inv have sub: "set SL \<subseteq> fst ` set m"
    and deg: "\<And>l. getInt I l = int (length (filter (\<lambda>e. snd e = l \<and> fst e \<notin> set SL) E))"
    and zero: "\<And>l. l \<in> fst ` set m \<Longrightarrow> (getInt I l = 0) = (l \<in> set SL)"
    by (auto simp: kahnInv_def)
  let ?U = "fst ` set m - set SL"
  from neq sub obtain u where u: "u \<in> ?U" by blast
  have "wf (set E)" using acyc by (intro finite_acyclic_wf) simp_all
  from wfE_min [OF this u] obtain z where z: "z \<in> ?U" and min: "\<And>y. (y, z) \<in> set E \<Longrightarrow> y \<notin> ?U"
    by blast
  from z zero [of z] have "getInt I z \<noteq> 0" by simp
  with deg [of z] have "filter (\<lambda>e. snd e = z \<and> fst e \<notin> set SL) E \<noteq> []" by auto
  then obtain e where e: "e \<in> set E" "snd e = z" "fst e \<notin> set SL"
    by (auto simp: filter_empty_conv)
  with ends [of e] have "fst e \<in> ?U" by simp
  moreover from e have "(fst e, z) \<in> set E" by (metis prod.collapse)
  ultimately show False using min by blast
qed

lemma kahn_sound:
  assumes inv: "kahnInv E m [] I SL"
    and ends: "\<And>e. e \<in> set E \<Longrightarrow> snd e \<in> fst ` set m"
    and all: "set SL = fst ` set m"
  shows "acyclic (set E)"
proof -
  let ?pos = "\<lambda>l. length (takeWhile (\<lambda>x. x \<noteq> l) SL)"
  from inv have ord: "\<And>e. e \<in> set E \<Longrightarrow> snd e \<in> set SL \<Longrightarrow> fst e \<in> set (takeWhile (\<lambda>x. x \<noteq> snd e) SL)"
    and dist: "distinct SL"
    by (auto simp: kahnInv_def)
  have less: "?pos a < ?pos b" if "(a, b) \<in> set E" for a b
  proof -
    from that ends [of "(a, b)"] all have bS: "b \<in> set SL" by simp
    with ord [of "(a, b)"] that have a_in: "a \<in> set (takeWhile (\<lambda>x. x \<noteq> b) SL)" by simp
    then obtain i where i: "i < length (takeWhile (\<lambda>x. x \<noteq> b) SL)"
      and ai: "takeWhile (\<lambda>x. x \<noteq> b) SL ! i = a"
      by (auto simp: in_set_conv_nth)
    from i have iS: "i < length SL" using length_takeWhile_le [of "\<lambda>x. x \<noteq> b" SL] by simp
    from i ai have SLi: "SL ! i = a" by (simp add: takeWhile_nth)
    have "takeWhile (\<lambda>x. x \<noteq> a) SL = take i SL"
    proof (rule takeWhile_eq_take_P_nth)
      fix j assume "j < i" "j < length SL"
      with dist iS SLi show "SL ! j \<noteq> a" by (auto simp: nth_eq_iff_index_eq)
    next
      show "i < length SL \<Longrightarrow> \<not> SL ! i \<noteq> a" using SLi by simp
    qed
    with iS have "?pos a = i" by simp
    with i show ?thesis by simp
  qed
  have "set E \<subseteq> measure ?pos" using less by auto
  moreover have "acyclic (measure ?pos)" by (intro wf_acyclic) simp
  ultimately show ?thesis by (rule acyclic_subset [rotated])
qed

text \<open>The list the main loop has emitted when it stops, and the in-degree it leaves to
  each label.\<close>

definition emittedBlocks :: "string list \<Rightarrow> BlockStmt list \<Rightarrow> BlockStmt option list" where
  "emittedBlocks rangeOrder bs = fst (fst (declareSortRun rangeOrder bs))"


lemma acyclic_by_rank:
  fixes rank :: "'a \<Rightarrow> nat"
  assumes "\<And>a b. (a, b) \<in> r \<Longrightarrow> rank a < rank b"
  shows "acyclic r"
proof -
  have "r \<subseteq> measure rank" using assms by auto
  moreover have "acyclic (measure rank)" by (intro wf_acyclic) simp
  ultimately show ?thesis by (rule acyclic_subset [rotated])
qed


text \<open>The two outcomes of \<open>SortDeclareBlocks\<close>, for any enumeration of the labels.\<close>

lemma SortDeclareBlocks_outcome:
  assumes ord: "distinct rangeOrder" "set rangeOrder = Label ` set bs"
  obtains (sorted) labels where
      "acyclic (dependsOn bs)"
      "SortDeclareBlocks rangeOrder bs = (map (lastWithLabel bs) labels, [])"
      "emittedBlocks rangeOrder bs = map (lastWithLabel bs) labels"
      "distinct labels" "set labels = Label ` set bs"
      "\<And>a b. (a, b) \<in> dependsOn bs \<Longrightarrow> precedes a b labels"
    | (cycle) labels where
      "\<not> acyclic (dependsOn bs)"
      "SortDeclareBlocks rangeOrder bs =
         ([], [cycleDiagnostic (sort (map fst (filter (\<lambda>(label, count). 0 < count)
                  (snd (fst (declareSortRun rangeOrder bs))))))])"
      "emittedBlocks rangeOrder bs = map (lastWithLabel bs) labels"
      "distinct labels" "set labels \<subset> Label ` set bs"
      "distinct (map fst (snd (fst (declareSortRun rangeOrder bs))))"
proof -
  let ?m = "blockIndex bs"
  let ?E = "dependencyEdges ?m bs"
  from declareSortRun_spec [OF ord] obtain SL I' where
    run: "declareSortRun rangeOrder bs = ((map (map_of ?m) SL, I'), ?m)" and
    inv: "kahnInv ?E ?m [] I' SL" and
    I'_dist: "distinct (map fst I')" and
    m_dist: "distinct (map fst ?m)" and
    m_keys: "fst ` set ?m = Label ` set bs" and
    m_last: "\<And>l. map_of ?m l = lastWithLabel bs l" and
    ends: "\<And>e. e \<in> set ?E \<Longrightarrow> fst e \<in> Label ` set bs \<and> snd e \<in> Label ` set bs"
    by blast
  have maps: "map (map_of ?m) SL = map (lastWithLabel bs) SL"
    using m_last by simp
  from inv have SL_dist: "distinct SL" and SL_sub: "set SL \<subseteq> Label ` set bs"
    and ordE: "\<And>e. e \<in> set ?E \<Longrightarrow> snd e \<in> set SL \<Longrightarrow> fst e \<in> set (takeWhile (\<lambda>x. x \<noteq> snd e) SL)"
    by (auto simp: kahnInv_def m_keys)
  have len_m: "length ?m = card (Label ` set bs)"
    using m_dist m_keys by (metis distinct_card length_map set_map)
  have len_S: "length SL = card (set SL)"
    using SL_dist by (simp add: distinct_card)
  have emitted: "emittedBlocks rangeOrder bs = map (lastWithLabel bs) SL"
    by (simp add: emittedBlocks_def run maps)
  show ?thesis
  proof (cases "set SL = Label ` set bs")
    case True
    have acyc: "acyclic (dependsOn bs)"
      unfolding dependsOn_def
      using inv ends True by (intro kahn_sound [of ?E ?m I' SL]) (auto simp: m_keys)
    have res: "SortDeclareBlocks rangeOrder bs = (map (lastWithLabel bs) SL, [])"
      using True by (simp add: SortDeclareBlocks_def run len_m len_S maps)
    have prec: "precedes a b SL" if "(a, b) \<in> dependsOn bs" for a b
    proof -
      from that have e: "(a, b) \<in> set ?E" by (simp add: dependsOn_def)
      with ends [of "(a, b)"] True have "b \<in> set SL" by simp
      with ordE [OF e] show ?thesis by (simp add: precedes_def)
    qed
    from sorted [OF acyc res emitted SL_dist True prec] show ?thesis .
  next
    case False
    have nacyc: "\<not> acyclic (dependsOn bs)"
    proof
      assume "acyclic (dependsOn bs)"
      then have "acyclic (set ?E)" by (simp add: dependsOn_def)
      with inv ends have "set SL = fst ` set ?m"
        by (intro kahn_complete [of ?E ?m I' SL]) (auto simp: m_keys)
      with False m_keys show False by simp
    qed
    from False SL_sub have psub: "set SL \<subset> Label ` set bs" by blast
    then have "card (set SL) < card (Label ` set bs)"
      by (intro psubset_card_mono) simp_all
    then have "length (map (lastWithLabel bs) SL) \<noteq> length ?m"
      using len_m len_S by simp
    then have res: "SortDeclareBlocks rangeOrder bs =
         ([], [cycleDiagnostic (sort (map fst (filter (\<lambda>(label, count). 0 < count)
                  (snd (fst (declareSortRun rangeOrder bs))))))])"
      by (simp add: SortDeclareBlocks_def run maps)
    have "distinct (map fst (snd (fst (declareSortRun rangeOrder bs))))"
      using I'_dist by (simp add: run)
    from cycle [OF nacyc res emitted SL_dist psub this] show ?thesis .
  qed
qed





subsection \<open>Example blocks\<close>

text \<open>Three declare blocks in a chain (\<open>b\<close> uses \<open>a\<close>, \<open>c\<close> uses \<open>b\<close>), and a variant
  of \<open>a\<close> that uses \<open>b\<close>.\<close>

definition declA :: BlockStmt where
  "declA = BlockStmt [''declare''] ''a'' []"
definition declB :: BlockStmt where
  "declB = BlockStmt [''declare''] ''b'' [BlockStmtOf (BlockStmt [''a''] ''x'' [])]"
definition declC :: BlockStmt where
  "declC = BlockStmt [''declare''] ''c''
      [AttributeStmt ''k'', BlockStmtOf (BlockStmt [''b''] ''y'' [])]"

lemma dependsOn_chain:
  "dependsOn [declC, declA, declB] = {(''b'', ''c''), (''a'', ''b'')}"
  by (simp add: dependsOn_def dependencyEdges_def blockIndex_def declA_def declB_def declC_def
      hasKey_def)




subsection \<open>C5: an acyclic label graph is sorted topologically\<close>

text \<open>
  C5. For declare blocks whose label-dependency graph is acyclic, and for every order in
  which Go may enumerate the label map, \<open>SortDeclareBlocks\<close> returns no diagnostic and a
  list with exactly one block per distinct label (the last block carrying it), in which
  every label stands after all the labels it depends on. The witness is the chain
  \<open>a\<close>, \<open>b\<close> uses \<open>a\<close>, \<open>c\<close> uses \<open>b\<close>, enumerated backwards: the result is
  \<open>[a, b, c]\<close>.
\<close>

theorem SortDeclareBlocks_topological:
  assumes "distinct rangeOrder" and "set rangeOrder = Label ` set declareBlocks"
    and "acyclic (dependsOn declareBlocks)"
  shows "\<exists>labels. SortDeclareBlocks rangeOrder declareBlocks
                   = (map (lastWithLabel declareBlocks) labels, [])
          \<and> distinct labels \<and> set labels = Label ` set declareBlocks
          \<and> (\<forall>l \<in> set labels. \<exists>b \<in> set declareBlocks.
                 lastWithLabel declareBlocks l = Some b \<and> Label b = l)
          \<and> (\<forall>(a, b) \<in> dependsOn declareBlocks. precedes a b labels)"
  using assms(1,2)
proof (cases rule: SortDeclareBlocks_outcome)
  case (sorted labels)
  have "\<exists>b \<in> set declareBlocks. lastWithLabel declareBlocks l = Some b \<and> Label b = l"
    if "l \<in> set labels" for l
  proof -
    from that sorted(5) have "lastWithLabel declareBlocks l \<noteq> None"
      by (simp add: lastWithLabel_None)
    then obtain b where "lastWithLabel declareBlocks l = Some b" by blast
    with lastWithLabel_Label [OF this] show ?thesis by blast
  qed
  with sorted show ?thesis by blast
next
  case (cycle labels)
  with assms(3) show ?thesis by simp
qed

theorem SortDeclareBlocks_topological_witness:
  "distinct [''c'', ''b'', ''a'']
   \<and> set [''c'', ''b'', ''a''] = Label ` set [declC, declA, declB]
   \<and> acyclic (dependsOn [declC, declA, declB])
   \<and> SortDeclareBlocks [''c'', ''b'', ''a''] [declC, declA, declB]
       = ([Some declA, Some declB, Some declC], [])
   \<and> (\<exists>labels. SortDeclareBlocks [''c'', ''b'', ''a''] [declC, declA, declB]
                   = (map (lastWithLabel [declC, declA, declB]) labels, [])
          \<and> distinct labels \<and> set labels = Label ` set [declC, declA, declB]
          \<and> (\<forall>l \<in> set labels. \<exists>b \<in> set [declC, declA, declB].
                 lastWithLabel [declC, declA, declB] l = Some b \<and> Label b = l)
          \<and> (\<forall>(a, b) \<in> dependsOn [declC, declA, declB]. precedes a b labels))"
proof -
  have h1: "distinct [''c'', ''b'', ''a'']" by simp
  have h2: "set [''c'', ''b'', ''a''] = Label ` set [declC, declA, declB]"
    by (auto simp: declA_def declB_def declC_def)
  have h3: "acyclic (dependsOn [declC, declA, declB])"
    unfolding dependsOn_chain
    by (rule acyclic_by_rank [where rank = "\<lambda>l. if l = ''a'' then 0 else if l = ''b'' then 1 else 2"])
       auto
  have run: "SortDeclareBlocks [''c'', ''b'', ''a''] [declC, declA, declB]
       = ([Some declA, Some declB, Some declC], [])"
    by code_simp
  from h1 h2 h3 run SortDeclareBlocks_topological [OF h1 h2 h3] show ?thesis by blast
qed

subsection \<open>C6: a cycle yields no order and one diagnostic\<close>



subsection \<open>C7: where the dependencies of a declare block are looked for\<close>

text \<open>
  Two readings of "a block named so stands in the body". \<open>blockNamesAnywhere\<close> follows
  the words of the specification: the names of all blocks of the body, at any depth.
  \<open>declareScopeNames\<close> is the scope the code searches: the blocks among the statements
  of the body and, for a nested block named \<open>declare\<close>, the scope of its body in its
  place; what lies inside any other block is not looked at.
\<close>

fun blockNamesAnywhere :: "Stmt list \<Rightarrow> string list" where
  "blockNamesAnywhere [] = []"
| "blockNamesAnywhere (AttributeStmt a # rest) = blockNamesAnywhere rest"
| "blockNamesAnywhere (BlockStmtOf (BlockStmt n l body) # rest) =
     Join n ''.'' # blockNamesAnywhere body @ blockNamesAnywhere rest"

fun declareScopeNames :: "Stmt list \<Rightarrow> string list" where
  "declareScopeNames [] = []"
| "declareScopeNames (AttributeStmt a # rest) = declareScopeNames rest"
| "declareScopeNames (BlockStmtOf (BlockStmt n l body) # rest) =
     (if Join n ''.'' = ''declare'' then declareScopeNames body else [Join n ''.''])
     @ declareScopeNames rest"

lemma findInBody_scope:
  "findDeclareDependencies b m = filter (hasKey m) (declareScopeNames (Body b))"
  "findInBody body m = filter (hasKey m) (declareScopeNames body)"
proof (induction b m and body m rule: findDeclareDependencies_findInBody.induct)
  case (1 n l body blockByLabel)
  then show ?case by simp
next
  case (2 blockByLabel)
  then show ?case by simp
next
  case (3 a rest blockByLabel)
  then show ?case by simp
next
  case (4 blockStmt rest blockByLabel)
  then show ?case by (cases blockStmt) (simp add: Let_def)
qed

text \<open>A declare block labelled \<open>rule\<close>, and a declare block \<open>b\<close> holding a component
  whose own settings include an inner block named \<open>rule\<close>.\<close>

definition relabelRule :: BlockStmt where
  "relabelRule = BlockStmt [''declare''] ''rule'' []"

definition usesRelabel :: BlockStmt where
  "usesRelabel = BlockStmt [''declare''] ''b''
     [BlockStmtOf (BlockStmt [''discovery'', ''relabel''] ''x''
        [BlockStmtOf (BlockStmt [''rule''] [] [])])]"

text \<open>
  C7 (amended). \<open>findDeclareDependencies\<close> reports that \<open>B\<close> depends on the label
  \<open>A\<close> exactly when \<open>A\<close> is a label of the block map and a block named \<open>A\<close>, other than
  a nested \<open>declare\<close> block itself, stands among the statements of the body of \<open>B\<close> or,
  recursively, of the bodies of the declare blocks nested in it.
\<close>

theorem findDeclareDependencies_scope:
  "(A \<in> set (findDeclareDependencies B blockByLabel))
     = (hasKey blockByLabel A \<and> A \<in> set (declareScopeNames (Body B)))"
proof -
  have "findDeclareDependencies B blockByLabel
      = filter (hasKey blockByLabel) (declareScopeNames (Body B))"
    by (rule findInBody_scope(1))
  then have "set (findDeclareDependencies B blockByLabel)
      = {l \<in> set (declareScopeNames (Body B)). hasKey blockByLabel l}"
    by simp
  then show ?thesis by auto
qed

theorem findDeclareDependencies_scope_witness:
  "(''a'' \<in> set (findDeclareDependencies declB [(''a'', declA), (''b'', declB)]))
     = (hasKey [(''a'', declA), (''b'', declB)] ''a'' \<and> ''a'' \<in> set (declareScopeNames (Body declB)))
   \<and> ''a'' \<in> set (findDeclareDependencies declB [(''a'', declA), (''b'', declB)])"
proof -
  have "''a'' \<in> set (findDeclareDependencies declB [(''a'', declA), (''b'', declB)])"
    by (simp add: declB_def hasKey_def)
  with findDeclareDependencies_scope [of "''a''" declB "[(''a'', declA), (''b'', declB)]"]
  show ?thesis by blast
qed

text \<open>
  C7 as stated fails: a block named after a declared label that lies inside a block
  which is not a nested declare is in the body, and is not reported.
\<close>

theorem findDeclareDependencies_anywhere_counterexample:
  "hasKey [(''rule'', relabelRule), (''b'', usesRelabel)] ''rule''
   \<and> ''rule'' \<in> set (blockNamesAnywhere (Body usesRelabel))
   \<and> ''rule'' \<notin> set (findDeclareDependencies usesRelabel
                         [(''rule'', relabelRule), (''b'', usesRelabel)])"
  by (simp add: usesRelabel_def relabelRule_def hasKey_def)


subsection \<open>C10: two declare blocks with one label\<close>

text \<open>An earlier block labelled \<open>a\<close>, replaced by \<open>declA\<close> when both are given.\<close>

definition declA_old :: BlockStmt where
  "declA_old = BlockStmt [''declare''] ''a'' [AttributeStmt ''old'']"

text \<open>
  C10. When two blocks of the list carry the same label, the returned list has at most
  one block per label, every returned block is the last block of the list with its
  label, the earlier block is not returned unless it equals that last block, and the
  only diagnostic \<open>SortDeclareBlocks\<close> can emit is the cycle diagnostic: none when the
  label graph (with the dependencies of every block given, replaced or not) is acyclic.
\<close>

theorem SortDeclareBlocks_duplicate_label:
  assumes "distinct rangeOrder" and "set rangeOrder = Label ` set declareBlocks"
    and "i < j" and "j < length declareBlocks"
    and "Label (declareBlocks ! i) = Label (declareBlocks ! j)"
  shows "distinct (map (map_option Label) (fst (SortDeclareBlocks rangeOrder declareBlocks)))
    \<and> (\<forall>p \<in> set (fst (SortDeclareBlocks rangeOrder declareBlocks)).
          \<exists>b. p = Some b \<and> lastWithLabel declareBlocks (Label b) = Some b)
    \<and> (lastWithLabel declareBlocks (Label (declareBlocks ! i)) \<noteq> Some (declareBlocks ! i)
          \<longrightarrow> Some (declareBlocks ! i) \<notin> set (fst (SortDeclareBlocks rangeOrder declareBlocks)))
    \<and> (snd (SortDeclareBlocks rangeOrder declareBlocks) = []
          \<or> (\<exists>unresolved. snd (SortDeclareBlocks rangeOrder declareBlocks)
                = [cycleDiagnostic unresolved]))
    \<and> (acyclic (dependsOn declareBlocks)
          \<longrightarrow> snd (SortDeclareBlocks rangeOrder declareBlocks) = [])"
  using assms(1,2)
proof (cases rule: SortDeclareBlocks_outcome)
  case (sorted labels)
  let ?r = "map (lastWithLabel declareBlocks) labels"
  have lab: "map_option Label (lastWithLabel declareBlocks l) = Some l" if "l \<in> set labels" for l
  proof -
    from that sorted(5) have "lastWithLabel declareBlocks l \<noteq> None"
      by (simp add: lastWithLabel_None)
    then obtain b where b: "lastWithLabel declareBlocks l = Some b" by blast
    with lastWithLabel_Label [OF b] show ?thesis by simp
  qed
  then have eq: "map (map_option Label) ?r = map Some labels" by simp
  have "distinct (map Some labels)" using sorted(4) by (simp add: distinct_map)
  then have d: "distinct (map (map_option Label) ?r)" by (simp only: eq)
  have last: "\<exists>b. p = Some b \<and> lastWithLabel declareBlocks (Label b) = Some b" if "p \<in> set ?r" for p
  proof -
    from that obtain l where l: "l \<in> set labels" and p: "p = lastWithLabel declareBlocks l" by auto
    from lab [OF l] obtain b where b: "lastWithLabel declareBlocks l = Some b" by auto
    with lastWithLabel_Label [OF b] p show ?thesis by auto
  qed
  then have "lastWithLabel declareBlocks (Label (declareBlocks ! i)) \<noteq> Some (declareBlocks ! i)
      \<longrightarrow> Some (declareBlocks ! i) \<notin> set ?r"
    by blast
  with d last show ?thesis by (simp add: sorted(2))
next
  case (cycle labels)
  then show ?thesis by auto
qed

theorem SortDeclareBlocks_duplicate_label_witness:
  "distinct [''b'', ''a''] \<and> set [''b'', ''a''] = Label ` set [declA_old, declA, declB]
   \<and> (0::nat) < 1 \<and> 1 < length [declA_old, declA, declB]
   \<and> Label ([declA_old, declA, declB] ! 0) = Label ([declA_old, declA, declB] ! 1)
   \<and> SortDeclareBlocks [''b'', ''a''] [declA_old, declA, declB] = ([Some declA, Some declB], [])
   \<and> Some declA_old \<notin> set (fst (SortDeclareBlocks [''b'', ''a''] [declA_old, declA, declB]))
   \<and> distinct (map (map_option Label)
         (fst (SortDeclareBlocks [''b'', ''a''] [declA_old, declA, declB])))"
proof -
  have h1: "distinct [''b'', ''a'']" by simp
  have h2: "set [''b'', ''a''] = Label ` set [declA_old, declA, declB]"
    by (auto simp: declA_old_def declA_def declB_def)
  have h3: "(0::nat) < 1" by simp
  have h4: "1 < length [declA_old, declA, declB]" by simp
  have h5: "Label ([declA_old, declA, declB] ! 0) = Label ([declA_old, declA, declB] ! 1)"
    by (simp add: declA_old_def declA_def)
  have run: "SortDeclareBlocks [''b'', ''a''] [declA_old, declA, declB] = ([Some declA, Some declB], [])"
    by code_simp
  have ne: "lastWithLabel [declA_old, declA, declB] (Label ([declA_old, declA, declB] ! 0))
      \<noteq> Some ([declA_old, declA, declB] ! 0)"
    by (simp add: declA_old_def declA_def declB_def)
  from SortDeclareBlocks_duplicate_label [OF h1 h2 h3 h4 h5] ne
  have "Some declA_old \<notin> set (fst (SortDeclareBlocks [''b'', ''a''] [declA_old, declA, declB]))"
    and "distinct (map (map_option Label)
         (fst (SortDeclareBlocks [''b'', ''a''] [declA_old, declA, declB])))"
    by simp_all
  with h1 h2 h3 h4 h5 run show ?thesis by blast
qed

section \<open>Verification of the loader\<close>

subsection \<open>Example configurations\<close>

text \<open>
  An environment with no services, config blocks or templates, in which node \<open>n\<close>
  refers to the nodes \<open>refs n\<close>, the walk visits the nodes in the order of insertion and
  every evaluation succeeds; a loader that has loaded nothing yet and knows the component
  type \<open>comp\<close>; and a few component blocks.
\<close>

definition plainEnv :: "(ref \<Rightarrow> ref list) \<Rightarrow> LoadEnv" where
  "plainEnv refs =
     \<lparr>populateServiceNodes = (\<lambda>l st bs. (st, [])),
      populateConfigBlockNodes = (\<lambda>l args st bs inModule. (st, [])),
      populateDeclareBlockNodes = (\<lambda>l h bs. (([], None), None, h, [])),
      ComponentReferences = (\<lambda>h n g. (refs n, [])),
      DependsOn = (\<lambda>name. []),
      WalkTopological = nodes,
      evaluateNode = (\<lambda>h idx n. ((h, idx), None)),
      ClearModuleExports = (\<lambda>idx. idx),
      rangeDeclareLabels = (\<lambda>bs. remdups (map Label bs))\<rparr>"

definition freshLoader :: Loader where
  "freshLoader =
     \<lparr>services = [], registered = [''comp''], hasOnExportsChange = False, ControllerID = [],
      graph = emptyGraph, originalGraph = emptyGraph, componentNodes = [], serviceNodes = [],
      blocks = [], moduleExportIndex = 0, exportChangeIndex = 0, store = [],
      evaluated = [], notified = []\<rparr>"

definition compA :: BlockStmt where "compA = BlockStmt [''comp''] ''a'' []"
definition compB :: BlockStmt where "compB = BlockStmt [''comp''] ''b'' [AttributeStmt ''in'']"
definition compC :: BlockStmt where "compC = BlockStmt [''comp''] ''c'' [AttributeStmt ''in'']"

definition chainRefs :: "ref \<Rightarrow> ref list" where
  "chainRefs n = (if n = 1 then [0] else if n = 2 then [1, 0] else [])"

subsection \<open>Diagnostics and the fields a step leaves alone\<close>

lemma HasErrors_append [simp]: "HasErrors (xs @ ys) = (HasErrors xs \<or> HasErrors ys)"
  by (simp add: HasErrors_def list_ex_iff) blast

lemma HasErrors_errorDiagnostic [simp]: "HasErrors [errorDiagnostic msg]"
  by (simp add: HasErrors_def errorDiagnostic_def)

lemma HasErrors_multierrToDiags [simp]: "HasErrors (multierrToDiags errs) = (errs \<noteq> [])"
  by (cases errs) (simp_all add: HasErrors_def multierrToDiags_def errorDiagnostic_def)





text \<open>The loader after \<open>Apply\<close> has loaded three components \<open>a\<close>, \<open>b\<close>, \<open>c\<close> (nodes 0, 1,
  2), where \<open>b\<close> refers to \<open>a\<close>, and \<open>c\<close> to \<open>b\<close> and to \<open>a\<close>.\<close>

definition chainLoader :: Loader where
  "chainLoader = snd (Apply (plainEnv chainRefs) freshLoader [] [compA, compB, compC] [] [])"

subsection \<open>C1: the graph whose incoming edges are walked\<close>




subsection \<open>Stores and previous nodes\<close>

text \<open>
  \<open>wfPrevious l h\<close>: every ID the previous graph registers leads to an object of the
  store that carries this ID. \<open>storeExtends h h'\<close>: the store \<open>h'\<close> has all the objects of
  \<open>h\<close> at their addresses, changed at most in their block reference.
  \<open>reusesPrevious l h0 h r'\<close>: if \<open>r'\<close> is a component node whose ID a component node of
  the previous graph carries, then \<open>r'\<close> is that node.
\<close>

definition wfPrevious :: "Loader \<Rightarrow> Store \<Rightarrow> bool" where
  "wfPrevious l h =
     (\<forall>nid r. GetByID (graph l) nid = Some r \<longrightarrow> r < length h \<and> NodeID (h ! r) = nid)"

definition storeExtends :: "Store \<Rightarrow> Store \<Rightarrow> bool" where
  "storeExtends h h' =
     (length h \<le> length h' \<and> (\<forall>r < length h. \<exists>blk. h' ! r = (h ! r)\<lparr>Block := blk\<rparr>))"

definition reusesPrevious :: "Loader \<Rightarrow> Store \<Rightarrow> Store \<Rightarrow> ref \<Rightarrow> bool" where
  "reusesPrevious l h0 h r' =
     (nodeType (h ! r') = ComponentNode \<longrightarrow>
        (\<forall>r. previousComponent l h0 (NodeID (h ! r')) = Some r \<longrightarrow> r' = r))"

lemma storeExtends_refl [simp]: "storeExtends h h"
proof -
  have "\<exists>blk. h ! r = (h ! r)\<lparr>Block := blk\<rparr>" for r
    by (rule exI [of _ "Block (h ! r)"]) simp
  then show ?thesis by (simp add: storeExtends_def)
qed

lemma storeExtends_trans:
  assumes "storeExtends h1 h2" and "storeExtends h2 h3"
  shows "storeExtends h1 h3"
proof -
  have "\<exists>blk. h3 ! r = (h1 ! r)\<lparr>Block := blk\<rparr>" if "r < length h1" for r
  proof -
    from that assms(1) obtain b1 where b1: "h2 ! r = (h1 ! r)\<lparr>Block := b1\<rparr>"
      by (auto simp: storeExtends_def)
    from that assms obtain b2 where "h3 ! r = (h2 ! r)\<lparr>Block := b2\<rparr>"
      by (fastforce simp: storeExtends_def)
    with b1 have "h3 ! r = (h1 ! r)\<lparr>Block := b2\<rparr>" by simp
    then show ?thesis by blast
  qed
  with assms show ?thesis by (auto simp: storeExtends_def)
qed

lemma storeExtends_UpdateBlock [simp]: "storeExtends h (UpdateBlock r b h)"
proof -
  have "\<exists>blk. UpdateBlock r b h ! r' = (h ! r')\<lparr>Block := blk\<rparr>" if "r' < length h" for r'
  proof (cases "r' = r")
    case True
    with that show ?thesis by (auto simp: UpdateBlock_def)
  next
    case False
    then have "UpdateBlock r b h ! r' = (h ! r')\<lparr>Block := Block (h ! r')\<rparr>"
      by (simp add: UpdateBlock_def)
    then show ?thesis by blast
  qed
  then show ?thesis by (simp add: storeExtends_def UpdateBlock_def)
qed

lemma length_UpdateBlock [simp]: "length (UpdateBlock r b h) = length h"
  by (simp add: UpdateBlock_def)

lemma storeExtends_append [simp]: "storeExtends h (h @ xs)"
proof -
  have "\<exists>blk. (h @ xs) ! r = (h ! r)\<lparr>Block := blk\<rparr>" if "r < length h" for r
    using that by (intro exI [of _ "Block (h ! r)"]) (simp add: nth_append)
  then show ?thesis by (simp add: storeExtends_def)
qed

lemma storeExtends_fields:
  assumes "storeExtends h h'" and "r < length h"
  shows "nodeType (h' ! r) = nodeType (h ! r)" "NodeID (h' ! r) = NodeID (h ! r)"
    "Namespace (h' ! r) = Namespace (h ! r)" "managed (h' ! r) = managed (h ! r)"
    "r < length h'"
proof -
  from assms obtain blk where "h' ! r = (h ! r)\<lparr>Block := blk\<rparr>"
    by (auto simp: storeExtends_def)
  then show "nodeType (h' ! r) = nodeType (h ! r)" "NodeID (h' ! r) = NodeID (h ! r)"
    "Namespace (h' ! r) = Namespace (h ! r)" "managed (h' ! r) = managed (h ! r)"
    by simp_all
  from assms show "r < length h'" by (simp add: storeExtends_def)
qed

lemma wfPrevious_extends:
  assumes "wfPrevious l h" and "storeExtends h h'"
  shows "wfPrevious l h'"
  using assms storeExtends_fields(2,5) [OF assms(2)]
  by (auto simp: wfPrevious_def)

lemma previousComponent_extends:
  assumes "wfPrevious l h" and "storeExtends h h'"
  shows "previousComponent l h' nid = previousComponent l h nid"
proof (cases "GetByID (graph l) nid")
  case None
  then show ?thesis by (simp add: previousComponent_def)
next
  case (Some r)
  with assms(1) have "r < length h" by (simp add: wfPrevious_def)
  from storeExtends_fields(1) [OF assms(2) this] Some show ?thesis
    by (simp add: previousComponent_def)
qed

lemma previousComponent_SomeD:
  assumes "wfPrevious l h" and "previousComponent l h nid = Some r"
  shows "r < length h" "NodeID (h ! r) = nid" "nodeType (h ! r) = ComponentNode"
    "GetByID (graph l) nid = Some r"
  using assms by (auto simp: previousComponent_def wfPrevious_def split: option.splits if_splits)

lemma nodes_Add [simp]: "set (nodes (Add h r g)) = insert r (set (nodes g))"
  by (auto simp: Add_def)

lemma nodes_AddEdge [simp]: "nodes (AddEdge e g) = nodes g"
  by (simp add: AddEdge_def)

lemma nodes_fold_AddEdge [simp]: "nodes (fold AddEdge es g) = nodes g"
  by (induction es arbitrary: g) simp_all

lemma nodes_MergeEdges [simp]: "nodes (MergeEdges sub g) = nodes g"
  by (simp add: MergeEdges_def)

lemma nodes_wireArguments [simp]: "nodes (wireArguments h nid d ns g) = nodes g"
  unfolding wireArguments_def by (induction ns arbitrary: g) simp_all

lemma nodes_fold_Add: "set (nodes (fold (Add h) rs g)) = set (nodes g) \<union> set rs"
  by (induction rs arbitrary: g) auto

lemma reusesPrevious_extends:
  assumes "storeExtends h h'" and "r' < length h"
  shows "reusesPrevious l h0 h' r' = reusesPrevious l h0 h r'"
  using storeExtends_fields(1,2) [OF assms] by (simp add: reusesPrevious_def)

lemma mergeNodes_spec:
  assumes wf: "wfPrevious l h0" and ext: "storeExtends h0 h"
    and valid: "\<forall>n \<in> set ns. n < length h"
    and run: "mergeNodes l ns (new, h) = (new', h')"
  shows "storeExtends h h' \<and> length h' = length h
    \<and> set (nodes new) \<subseteq> set (nodes new')
    \<and> (\<forall>r' \<in> set (nodes new') - set (nodes new). r' < length h' \<and> reusesPrevious l h0 h' r')
    \<and> (\<forall>n \<in> set ns. \<forall>r. previousComponent l h0 (NodeID (h ! n)) = Some r
            \<and> nodeType (h ! n) = ComponentNode \<longrightarrow> r \<in> set (nodes new'))"
  using ext valid run
proof (induction ns arbitrary: new h)
  case Nil
  then show ?case by simp
next
  case (Cons n ns)
  from wf Cons.prems(1) have wfh: "wfPrevious l h" by (rule wfPrevious_extends)
  have prev: "previousComponent l h nid = previousComponent l h0 nid" for nid
    using wf Cons.prems(1) by (rule previousComponent_extends)
  from Cons.prems(2) have n_valid: "n < length h" by simp
  let ?step = "case GetByID (graph l) (NodeID (h ! n)) of
          Some existing \<Rightarrow>
            if nodeType (h ! existing) = ComponentNode \<and> nodeType (h ! n) = ComponentNode
            then (let h' = UpdateBlock existing (Block (h ! n)) h in (Add h' existing new, h'))
            else (Add h n new, h)
        | None \<Rightarrow> (Add h n new, h)"
  obtain new1 h1 where step: "?step = (new1, h1)" by (cases ?step)
  have "\<exists>a. storeExtends h h1 \<and> length h1 = length h
      \<and> set (nodes new1) = insert a (set (nodes new))
      \<and> a < length h \<and> reusesPrevious l h0 h a
      \<and> (\<forall>r. previousComponent l h0 (NodeID (h ! n)) = Some r
              \<and> nodeType (h ! n) = ComponentNode \<longrightarrow> a = r)"
  proof (cases "previousComponent l h (NodeID (h ! n))")
    case None
    with step have "h1 = h" "set (nodes new1) = insert n (set (nodes new))"
      by (auto simp: previousComponent_def split: option.splits if_splits)
    moreover from None have "reusesPrevious l h0 h n"
      by (simp add: reusesPrevious_def prev [symmetric])
    ultimately show ?thesis using n_valid None by (auto simp: prev [symmetric])
  next
    case (Some existing)
    from previousComponent_SomeD [OF wfh Some]
    have ex: "GetByID (graph l) (NodeID (h ! n)) = Some existing"
      "nodeType (h ! existing) = ComponentNode" "existing < length h"
      "NodeID (h ! existing) = NodeID (h ! n)" by simp_all
    show ?thesis
    proof (cases "nodeType (h ! n) = ComponentNode")
      case True
      with step ex have "storeExtends h h1" "length h1 = length h"
        "set (nodes new1) = insert existing (set (nodes new))"
        by (auto simp: Let_def)
      moreover from Some ex(4) have "reusesPrevious l h0 h existing"
        by (simp add: reusesPrevious_def prev [symmetric])
      ultimately show ?thesis using ex(3) Some by (auto simp: prev [symmetric])
    next
      case False
      with step ex have "h1 = h" "set (nodes new1) = insert n (set (nodes new))"
        by auto
      moreover from False have "reusesPrevious l h0 h n"
        by (simp add: reusesPrevious_def)
      ultimately show ?thesis using n_valid False by auto
    qed
  qed
  then obtain a where ext1: "storeExtends h h1" and len1: "length h1 = length h"
    and nodes1: "set (nodes new1) = insert a (set (nodes new))"
    and a_valid: "a < length h" and a_reuses: "reusesPrevious l h0 h a"
    and a_prev: "\<And>r. previousComponent l h0 (NodeID (h ! n)) = Some r \<Longrightarrow>
              nodeType (h ! n) = ComponentNode \<Longrightarrow> a = r"
    by blast
  from Cons.prems(1) ext1 have ext01: "storeExtends h0 h1" by (rule storeExtends_trans)
  from Cons.prems(2) len1 have valid1: "\<forall>n \<in> set ns. n < length h1" by simp
  from Cons.prems(3) have "mergeNodes l ns ?step = (new', h')" by simp
  then have run1: "mergeNodes l ns (new1, h1) = (new', h')" by (simp only: step)
  from Cons.IH [OF ext01 valid1 run1]
  have ih_ext: "storeExtends h1 h'" and ih_len: "length h' = length h1"
    and ih_sub: "set (nodes new1) \<subseteq> set (nodes new')"
    and ih_new: "\<And>r'. r' \<in> set (nodes new') \<Longrightarrow> r' \<notin> set (nodes new1) \<Longrightarrow>
                    r' < length h' \<and> reusesPrevious l h0 h' r'"
    and ih_prev: "\<And>m r. m \<in> set ns \<Longrightarrow> previousComponent l h0 (NodeID (h1 ! m)) = Some r \<Longrightarrow>
                    nodeType (h1 ! m) = ComponentNode \<Longrightarrow> r \<in> set (nodes new')"
    by auto
  have c1: "storeExtends h h'" using ext1 ih_ext by (rule storeExtends_trans)
  have c2: "length h' = length h" using ih_len len1 by simp
  have c3: "set (nodes new) \<subseteq> set (nodes new')" using nodes1 ih_sub by auto
  have c4: "r' < length h' \<and> reusesPrevious l h0 h' r'"
    if "r' \<in> set (nodes new')" "r' \<notin> set (nodes new)" for r'
  proof (cases "r' \<in> set (nodes new1)")
    case True
    with that(2) nodes1 have r': "r' = a" by auto
    with a_valid c2 have "r' < length h'" by simp
    moreover from reusesPrevious_extends [OF c1 a_valid] a_reuses r'
    have "reusesPrevious l h0 h' r'" by simp
    ultimately show ?thesis by simp
  next
    case False
    with that(1) ih_new show ?thesis by simp
  qed
  have c5: "r \<in> set (nodes new')"
    if "m \<in> set (n # ns)" "previousComponent l h0 (NodeID (h ! m)) = Some r"
       "nodeType (h ! m) = ComponentNode" for m r
  proof (cases "m = n")
    case True
    with that a_prev [of r] have "a = r" by simp
    with nodes1 ih_sub show ?thesis by auto
  next
    case False
    with that(1) have m: "m \<in> set ns" by simp
    with Cons.prems(2) have "m < length h" by simp
    from storeExtends_fields(1,2) [OF ext1 this] that(2,3) ih_prev [OF m] show ?thesis by simp
  qed
  from c1 c2 c3 c4 c5 show ?case by blast
qed

lemma DeepClone_spec:
  assumes "DeepClone t ns h = (cg, h1)"
  shows "h1 = h @ map (namespaced ns) (templateNodes t)"
    and "set (nodes cg) = {length h ..< length h + length (templateNodes t)}"
proof -
  from assms show h1: "h1 = h @ map (namespaced ns) (templateNodes t)"
    by (auto simp: DeepClone_def Let_def)
  from assms have "set (nodes cg) = set (map (\<lambda>i. length h + i) [0 ..< length (templateNodes t)])"
    by (auto simp: DeepClone_def Let_def nodes_fold_Add emptyGraph_def)
  also have "\<dots> = {length h ..< length h + length (templateNodes t)}"
    by auto
  finally show "set (nodes cg) = {length h ..< length h + length (templateNodes t)}" .
qed

lemma MergeSubgraph_spec:
  assumes wf: "wfPrevious l h0" and ext: "storeExtends h0 h"
    and valid: "\<forall>n \<in> set (nodes sub). n < length h"
    and run: "MergeSubgraph l (new, h) sub = (new', h')"
  shows "storeExtends h h' \<and> length h' = length h
    \<and> set (nodes new) \<subseteq> set (nodes new')
    \<and> (\<forall>r' \<in> set (nodes new') - set (nodes new). r' < length h' \<and> reusesPrevious l h0 h' r')
    \<and> (\<forall>n \<in> set (nodes sub). \<forall>r. previousComponent l h0 (NodeID (h ! n)) = Some r
            \<and> nodeType (h ! n) = ComponentNode \<longrightarrow> r \<in> set (nodes new'))"
proof -
  obtain new1 h1 where m: "mergeNodes l (nodes sub) (new, h) = (new1, h1)"
    by (cases "mergeNodes l (nodes sub) (new, h)")
  with run have eqs: "new' = MergeEdges sub new1" "h' = h1"
    by (simp_all add: MergeSubgraph_def)
  show ?thesis unfolding eqs nodes_MergeEdges
    by (rule mergeNodes_spec [OF wf ext valid m])
qed

lemma populateComponentBlock_frame:
  assumes wf: "wfPrevious l h0" and ext: "storeExtends h0 h"
    and step: "populateComponentBlock l gt b ((g, h), ds, bm) = ((g', h'), ds', bm')"
  shows "storeExtends h h' \<and> set (nodes g) \<subseteq> set (nodes g')
    \<and> (\<forall>r' \<in> set (nodes g') - set (nodes g). r' < length h' \<and> reusesPrevious l h0 h' r')
    \<and> fst ` set bm' = insert (BlockComponentID b) (fst ` set bm)
    \<and> (\<not> hasKey bm (BlockComponentID b) \<longrightarrow>
          (\<forall>r. previousComponent l h0 (BlockComponentID b) = Some r \<longrightarrow> r \<in> set (nodes g')))"
proof -
  let ?nid = "BlockComponentID b"
  let ?name = "GetBlockName b"
  from wf ext have wfh: "wfPrevious l h" by (rule wfPrevious_extends)
  have prev: "previousComponent l h nid = previousComponent l h0 nid" for nid
    using wf ext by (rule previousComponent_extends)
  have keys: "fst ` set (AList.update ?nid b bm) = insert ?nid (fst ` set bm)"
    by (simp add: dom_update)
  show ?thesis
  proof (cases "hasKey bm ?nid")
    case True
    with step have "g' = g" "h' = h" "bm' = bm"
      by (simp_all add: populateComponentBlock_def Let_def)
    with True show ?thesis by (auto simp: hasKey_iff)
  next
    case notdup: False
    show ?thesis
    proof (cases "previousComponent l h ?nid")
      case (Some c)
      with step notdup have res: "h' = UpdateBlock c (Some b) h" "g' = Add h' c g"
        "bm' = AList.update ?nid b bm"
        by (auto simp: populateComponentBlock_def Let_def)
      from previousComponent_SomeD [OF wfh Some]
      have c: "c < length h" "NodeID (h ! c) = ?nid" by simp_all
      from res(1) have e: "storeExtends h h'" by simp
      from storeExtends_fields(2) [OF e c(1)] c(2) Some
      have "reusesPrevious l h0 h' c"
        by (simp add: reusesPrevious_def prev [symmetric])
      with res e c(1) Some keys show ?thesis by (auto simp: prev [symmetric])
    next
      case noprev: None
      show ?thesis
      proof (cases "Label b = []")
        case True
        with step notdup noprev have "g' = g" "h' = h" "bm' = AList.update ?nid b bm"
          by (simp_all add: populateComponentBlock_def Let_def)
        with keys noprev show ?thesis by (simp add: prev [symmetric])
      next
        case labelled: False
        show ?thesis
        proof (cases "map_of gt ?name")
          case None
          show ?thesis
          proof (cases "?name \<in> set (registered l)")
            case False
            with step notdup noprev labelled None
            have "g' = g" "h' = h" "bm' = AList.update ?nid b bm"
              by (simp_all add: populateComponentBlock_def Let_def)
            with keys noprev show ?thesis by (simp add: prev [symmetric])
          next
            case True
            let ?n = "\<lparr>nodeType = ComponentNode, NodeID = ?nid, Namespace = [],
                       Block = Some b, managed = 0\<rparr>"
            from step notdup noprev labelled None True
            have res: "h' = h @ [?n]" "g' = Add h' (length h) g" "bm' = AList.update ?nid b bm"
              by (auto simp: populateComponentBlock_def Let_def alloc_def)
            from res(1) noprev have "reusesPrevious l h0 h' (length h)"
              by (simp add: reusesPrevious_def prev [symmetric])
            with res keys noprev show ?thesis by (auto simp: prev [symmetric])
          qed
        next
          case (Some template)
          obtain cg h1 where dc: "DeepClone template ?nid h = (cg, h1)"
            by (cases "DeepClone template ?nid h")
          obtain g1 h2 where ms: "MergeSubgraph l (g, h1) cg = (g1, h2)"
            by (cases "MergeSubgraph l (g, h1) cg")
          let ?d = "\<lparr>nodeType = DeclareComponentNode, NodeID = ?nid, Namespace = [],
                     Block = Some b, managed = 0\<rparr>"
          from step notdup noprev labelled Some dc ms
          have res: "h' = h2 @ [?d]"
            "g' = wireArguments h' ?nid (length h2) (nodes cg) (Add h' (length h2) g1)"
            "bm' = AList.update ?nid b bm"
            by (auto simp: populateComponentBlock_def Let_def alloc_def)
          from DeepClone_spec [OF dc] have h1: "storeExtends h h1"
            and cg_valid: "\<forall>n \<in> set (nodes cg). n < length h1"
            by auto
          from ext h1 have ext1: "storeExtends h0 h1" by (rule storeExtends_trans)
          from MergeSubgraph_spec [OF wf ext1 cg_valid ms]
          have e12: "storeExtends h1 h2" and sub: "set (nodes g) \<subseteq> set (nodes g1)"
            and new: "\<And>r'. r' \<in> set (nodes g1) \<Longrightarrow> r' \<notin> set (nodes g) \<Longrightarrow>
                         r' < length h2 \<and> reusesPrevious l h0 h2 r'"
            by auto
          from res(1) have e23: "storeExtends h2 h'" by simp
          have e: "storeExtends h h'"
            using h1 e12 e23 by (blast intro: storeExtends_trans)
          have nodes': "set (nodes g') = insert (length h2) (set (nodes g1))"
            by (simp add: res(2))
          have added: "r' < length h' \<and> reusesPrevious l h0 h' r'"
            if "r' \<in> set (nodes g')" "r' \<notin> set (nodes g)" for r'
          proof (cases "r' = length h2")
            case True
            with res(1) show ?thesis by (simp add: reusesPrevious_def)
          next
            case False
            with that nodes' have "r' \<in> set (nodes g1)" by simp
            from new [OF this that(2)] have r': "r' < length h2" "reusesPrevious l h0 h2 r'"
              by simp_all
            from reusesPrevious_extends [OF e23 r'(1)] r' res(1) show ?thesis by simp
          qed
          from e sub nodes' added keys res(3) noprev show ?thesis
            by (auto simp: prev [symmetric])
        qed
      qed
    qed
  qed
qed

text \<open>The components of the state of the loop of \<open>populateComponentNodes\<close>.\<close>

definition graphOf :: "PopulateState \<Rightarrow> Graph" where
  "graphOf st = fst (fst st)"

definition storeOf :: "PopulateState \<Rightarrow> Store" where
  "storeOf st = snd (fst st)"


lemma populateComponentNodes_frame:
  assumes wf: "wfPrevious l h0"
  shows "storeExtends h0 h \<Longrightarrow>
    populateComponentNodes l gt bs ((g, h), ds, bm) = ((g', h'), ds', bm') \<Longrightarrow>
    \<forall>nid \<in> fst ` set bm. \<forall>r. previousComponent l h0 nid = Some r \<longrightarrow> r \<in> set (nodes g) \<Longrightarrow>
    storeExtends h h' \<and> set (nodes g) \<subseteq> set (nodes g')
    \<and> (\<forall>r' \<in> set (nodes g') - set (nodes g). r' < length h' \<and> reusesPrevious l h0 h' r')
    \<and> (\<forall>b \<in> set bs. \<forall>r. previousComponent l h0 (BlockComponentID b) = Some r
           \<longrightarrow> r \<in> set (nodes g'))"
proof (induction bs arbitrary: g h ds bm)
  case Nil
  then show ?case by simp
next
  case (Cons b bs)
  obtain g1 h1 ds1 bm1 where
    step: "populateComponentBlock l gt b ((g, h), ds, bm) = ((g1, h1), ds1, bm1)"
    by (cases "populateComponentBlock l gt b ((g, h), ds, bm)") auto
  from populateComponentBlock_frame [OF wf Cons.prems(1) step]
  have e1: "storeExtends h h1" and sub1: "set (nodes g) \<subseteq> set (nodes g1)"
    and new1: "\<And>r'. r' \<in> set (nodes g1) \<Longrightarrow> r' \<notin> set (nodes g) \<Longrightarrow>
                  r' < length h1 \<and> reusesPrevious l h0 h1 r'"
    and keys1: "fst ` set bm1 = insert (BlockComponentID b) (fst ` set bm)"
    and here: "\<And>r. \<not> hasKey bm (BlockComponentID b) \<Longrightarrow>
                  previousComponent l h0 (BlockComponentID b) = Some r \<Longrightarrow> r \<in> set (nodes g1)"
    by auto
  from Cons.prems(1) e1 have ext1: "storeExtends h0 h1" by (rule storeExtends_trans)
  from Cons.prems(2) step
  have run1: "populateComponentNodes l gt bs ((g1, h1), ds1, bm1) = ((g', h'), ds', bm')"
    by simp
  have b_seen: "r \<in> set (nodes g1)"
    if "previousComponent l h0 (BlockComponentID b) = Some r" for r
  proof (cases "hasKey bm (BlockComponentID b)")
    case True
    with Cons.prems(3) that sub1 show ?thesis by (auto simp: hasKey_iff)
  next
    case False
    from here [OF this that] show ?thesis .
  qed
  have seen1: "\<forall>nid \<in> fst ` set bm1. \<forall>r. previousComponent l h0 nid = Some r
      \<longrightarrow> r \<in> set (nodes g1)"
    using keys1 Cons.prems(3) sub1 b_seen by auto
  from Cons.IH [OF ext1 run1 seen1]
  have e2: "storeExtends h1 h'" and sub2: "set (nodes g1) \<subseteq> set (nodes g')"
    and new2: "\<And>r'. r' \<in> set (nodes g') \<Longrightarrow> r' \<notin> set (nodes g1) \<Longrightarrow>
                  r' < length h' \<and> reusesPrevious l h0 h' r'"
    and rest: "\<And>b' r. b' \<in> set bs \<Longrightarrow> previousComponent l h0 (BlockComponentID b') = Some r
                  \<Longrightarrow> r \<in> set (nodes g')"
    by auto
  have c1: "storeExtends h h'" using e1 e2 by (rule storeExtends_trans)
  have c2: "set (nodes g) \<subseteq> set (nodes g')" using sub1 sub2 by blast
  have c3: "r' < length h' \<and> reusesPrevious l h0 h' r'"
    if "r' \<in> set (nodes g')" "r' \<notin> set (nodes g)" for r'
  proof (cases "r' \<in> set (nodes g1)")
    case True
    from new1 [OF True that(2)] have r': "r' < length h1" "reusesPrevious l h0 h1 r'" by simp_all
    from reusesPrevious_extends [OF e2 r'(1)] r' storeExtends_fields(5) [OF e2 r'(1)]
    show ?thesis by simp
  next
    case False
    from new2 [OF that(1) False] show ?thesis .
  qed
  have c4: "r \<in> set (nodes g')"
    if "b' \<in> set (b # bs)" "previousComponent l h0 (BlockComponentID b') = Some r" for b' r
  proof (cases "b' = b")
    case True
    with that(2) b_seen sub2 show ?thesis by blast
  next
    case False
    with that rest show ?thesis by simp
  qed
  from c1 c2 c3 c4 show ?case by blast
qed

text \<open>A changed block for the component \<open>a\<close>, and a block for a new component.\<close>

definition compA2 :: BlockStmt where
  "compA2 = BlockStmt [''comp''] ''a'' [AttributeStmt ''changed'']"

definition compD :: BlockStmt where
  "compD = BlockStmt [''comp''] ''d'' []"

lemma chainLoader_store:
  "store chainLoader =
     [\<lparr>nodeType = ComponentNode, NodeID = ''comp.a'', Namespace = [], Block = Some compA, managed = 0\<rparr>,
      \<lparr>nodeType = ComponentNode, NodeID = ''comp.b'', Namespace = [], Block = Some compB, managed = 0\<rparr>,
      \<lparr>nodeType = ComponentNode, NodeID = ''comp.c'', Namespace = [], Block = Some compC, managed = 0\<rparr>]"
  by code_simp

lemma chainLoader_nodeByID:
  "nodeByID (graph chainLoader) = [(''comp.a'', 0), (''comp.b'', 1), (''comp.c'', 2)]"
  by code_simp

lemma wfPrevious_chainLoader: "wfPrevious chainLoader (store chainLoader)"
  by (auto simp: wfPrevious_def GetByID_def chainLoader_nodeByID chainLoader_store
      split: if_splits)

subsection \<open>C4: nodes of the previous graph are reused\<close>

text \<open>
  C4. Let the previous graph be well formed. (1) The loop body of
  \<open>populateComponentNodes\<close>, at a block not yet seen whose ID a component node \<open>c\<close> of the
  previous graph carries, adds \<open>c\<close> itself to the new graph and changes the store only
  by pointing \<open>c\<close> at the block; it allocates nothing. (2) After the whole loop, every
  object of the store is what it was except for its block reference, the previous
  component node of every such block is in the new graph, and every component node the
  loop has added under an ID that a previous component node carries is that previous
  node, also among the nodes merged from an instantiated template. (3) The same holds
  of \<open>MergeSubgraph\<close> on its own.
\<close>

theorem populateComponentNodes_reuses_previous:
  assumes "wfPrevious l h"
  shows "(\<forall>block g ds bm c.
            \<not> hasKey bm (BlockComponentID block)
            \<and> previousComponent l h (BlockComponentID block) = Some c \<longrightarrow>
            populateComponentBlock l gt block ((g, h), ds, bm)
              = ((Add (UpdateBlock c (Some block) h) c g, UpdateBlock c (Some block) h),
                 ds, AList.update (BlockComponentID block) block bm))
    \<and> (\<forall>g ds. storeExtends h (storeOf (populateComponentNodes l gt componentBlocks ((g, h), ds, [])))
          \<and> (\<forall>block \<in> set componentBlocks. \<forall>c.
                previousComponent l h (BlockComponentID block) = Some c \<longrightarrow>
                c \<in> set (nodes (graphOf (populateComponentNodes l gt componentBlocks ((g, h), ds, [])))))
          \<and> (\<forall>r' \<in> set (nodes (graphOf (populateComponentNodes l gt componentBlocks ((g, h), ds, []))))
                     - set (nodes g).
                reusesPrevious l h (storeOf (populateComponentNodes l gt componentBlocks ((g, h), ds, []))) r'))
    \<and> (\<forall>new sub. (\<forall>n \<in> set (nodes sub). n < length h) \<longrightarrow>
          storeExtends h (snd (MergeSubgraph l (new, h) sub))
          \<and> (\<forall>n \<in> set (nodes sub). \<forall>c.
                previousComponent l h (NodeID (h ! n)) = Some c
                \<and> nodeType (h ! n) = ComponentNode \<longrightarrow>
                c \<in> set (nodes (fst (MergeSubgraph l (new, h) sub))))
          \<and> (\<forall>r' \<in> set (nodes (fst (MergeSubgraph l (new, h) sub))) - set (nodes new).
                reusesPrevious l h (snd (MergeSubgraph l (new, h) sub)) r'))"
proof (intro conjI allI impI)
  fix block g ds and bm :: "BlockStmt gomap" and c
  assume "\<not> hasKey bm (BlockComponentID block)
            \<and> previousComponent l h (BlockComponentID block) = Some c"
  then show "populateComponentBlock l gt block ((g, h), ds, bm)
              = ((Add (UpdateBlock c (Some block) h) c g, UpdateBlock c (Some block) h),
                 ds, AList.update (BlockComponentID block) block bm)"
    by (simp add: populateComponentBlock_def Let_def)
next
  fix g ds
  let ?st = "populateComponentNodes l gt componentBlocks ((g, h), ds, [])"
  obtain g' h' ds' bm' where run: "?st = ((g', h'), ds', bm')"
    by (cases ?st) auto
  note frame = populateComponentNodes_frame [OF assms storeExtends_refl run]
  {
    show "storeExtends h (storeOf ?st)"
      using frame by (simp add: run storeOf_def)
  next
    show "\<forall>block \<in> set componentBlocks. \<forall>c.
                previousComponent l h (BlockComponentID block) = Some c \<longrightarrow>
                c \<in> set (nodes (graphOf ?st))"
      using frame by (simp add: run graphOf_def)
  next
    show "\<forall>r' \<in> set (nodes (graphOf ?st)) - set (nodes g). reusesPrevious l h (storeOf ?st) r'"
      using frame by (simp add: run graphOf_def storeOf_def)
  }
next
  fix new and sub :: Graph
  assume valid: "\<forall>n \<in> set (nodes sub). n < length h"
  obtain new' h' where run: "MergeSubgraph l (new, h) sub = (new', h')"
    by (cases "MergeSubgraph l (new, h) sub")
  note spec = MergeSubgraph_spec [OF assms storeExtends_refl valid run]
  {
    show "storeExtends h (snd (MergeSubgraph l (new, h) sub))"
      using spec by (simp add: run)
  next
    show "\<forall>n \<in> set (nodes sub). \<forall>c.
                previousComponent l h (NodeID (h ! n)) = Some c
                \<and> nodeType (h ! n) = ComponentNode \<longrightarrow>
                c \<in> set (nodes (fst (MergeSubgraph l (new, h) sub)))"
      using spec by (simp add: run)
  next
    show "\<forall>r' \<in> set (nodes (fst (MergeSubgraph l (new, h) sub))) - set (nodes new).
                reusesPrevious l h (snd (MergeSubgraph l (new, h) sub)) r'"
      using spec by (simp add: run)
  }
qed

text \<open>A loader whose previous graph holds the component \<open>inner\<close> of an instance \<open>tmpl.x\<close>
  of a template, and the template.\<close>

definition innerOld :: BlockStmt where
  "innerOld = BlockStmt [''inner''] [] [AttributeStmt ''old'']"

definition innerNew :: BlockStmt where
  "innerNew = BlockStmt [''inner''] [] [AttributeStmt ''new'']"

definition instanceLoader :: Loader where
  "instanceLoader = freshLoader
     \<lparr>graph := \<lparr>nodeByID = [(''tmpl.x.inner'', 0)], nodes = [0], edges = []\<rparr>,
      store := [\<lparr>nodeType = ComponentNode, NodeID = ''tmpl.x.inner'', Namespace = ''tmpl.x'',
                 Block = Some innerOld, managed = 7\<rparr>]\<rparr>"

definition tmpl :: Template where
  "tmpl = \<lparr>templateNodes = [\<lparr>nodeType = ComponentNode, NodeID = ''inner'', Namespace = [],
                               Block = Some innerNew, managed = 0\<rparr>],
           templateEdges = []\<rparr>"

definition tmplX :: BlockStmt where
  "tmplX = BlockStmt [''tmpl''] ''x'' []"

theorem populateComponentNodes_reuses_previous_witness:
  "wfPrevious chainLoader (store chainLoader)
   \<and> previousComponent chainLoader (store chainLoader) (BlockComponentID compA2) = Some 0
   \<and> 0 \<in> set (nodes (graphOf (populateComponentNodes chainLoader [] [compA2, compD]
                ((emptyGraph, store chainLoader), [], []))))
   \<and> nodes (graphOf (populateComponentNodes chainLoader [] [compA2, compD]
                ((emptyGraph, store chainLoader), [], []))) = [0, 3]
   \<and> storeOf (populateComponentNodes chainLoader [] [compA2, compD]
                ((emptyGraph, store chainLoader), [], [])) ! 0
        = (store chainLoader ! 0)\<lparr>Block := Some compA2\<rparr>
   \<and> nodes (graphOf (populateComponentNodes instanceLoader [(''tmpl'', tmpl)] [tmplX]
                ((emptyGraph, store instanceLoader), [], []))) = [0, 2]
   \<and> storeOf (populateComponentNodes instanceLoader [(''tmpl'', tmpl)] [tmplX]
                ((emptyGraph, store instanceLoader), [], [])) ! 0
        = (store instanceLoader ! 0)\<lparr>Block := Some innerNew\<rparr>"
proof -
  note wf = wfPrevious_chainLoader
  have prev: "previousComponent chainLoader (store chainLoader) (BlockComponentID compA2) = Some 0"
    by code_simp
  from populateComponentNodes_reuses_previous [OF wf, of "[]" "[compA2, compD]"]
  have "\<forall>block \<in> set [compA2, compD]. \<forall>c.
          previousComponent chainLoader (store chainLoader) (BlockComponentID block) = Some c \<longrightarrow>
          c \<in> set (nodes (graphOf (populateComponentNodes chainLoader [] [compA2, compD]
                ((emptyGraph, store chainLoader), [], []))))"
    by blast
  with prev have reused: "0 \<in> set (nodes (graphOf (populateComponentNodes chainLoader []
      [compA2, compD] ((emptyGraph, store chainLoader), [], []))))"
    by simp
  have "nodes (graphOf (populateComponentNodes chainLoader [] [compA2, compD]
                ((emptyGraph, store chainLoader), [], []))) = [0, 3]"
    and "storeOf (populateComponentNodes chainLoader [] [compA2, compD]
                ((emptyGraph, store chainLoader), [], [])) ! 0
        = (store chainLoader ! 0)\<lparr>Block := Some compA2\<rparr>"
    and "nodes (graphOf (populateComponentNodes instanceLoader [(''tmpl'', tmpl)] [tmplX]
                ((emptyGraph, store instanceLoader), [], []))) = [0, 2]"
    and "storeOf (populateComponentNodes instanceLoader [(''tmpl'', tmpl)] [tmplX]
                ((emptyGraph, store instanceLoader), [], [])) ! 0
        = (store instanceLoader ! 0)\<lparr>Block := Some innerNew\<rparr>"
    by (code_simp, code_simp, code_simp, code_simp)
  with wf prev reused show ?thesis by blast
qed

subsection \<open>What the population writes to the objects it finds\<close>

text \<open>
  \<open>repointed h h'\<close>: the objects of the store \<open>h\<close> whose block reference differs in
  \<open>h'\<close>. \<open>reusedComponent l h g r\<close>: \<open>r\<close> is a component node which the installed graph
  of \<open>l\<close> registers under its ID and which the graph \<open>g\<close> holds. \<open>internalIDs gt b\<close>: the
  IDs of the nodes an instance of a template for the block \<open>b\<close> brings with it;
  \<open>touches gt b nid\<close>: \<open>nid\<close> is the ID of \<open>b\<close> or one of those.
\<close>

definition repointed :: "Store \<Rightarrow> Store \<Rightarrow> ref set" where
  "repointed h h' = {r. r < length h \<and> Block (h' ! r) \<noteq> Block (h ! r)}"




lemma repointed_refl [simp]: "repointed h h = {}"
  by (simp add: repointed_def)

lemma repointed_append [simp]: "repointed h (h @ xs) = {}"
  by (auto simp: repointed_def nth_append)










lemma nodes_fold_AddEdge_from [simp]:
  "nodes (fold (\<lambda>target. AddEdge (n, target)) targets g) = nodes g"
  by (induction targets arbitrary: g) simp_all



subsection \<open>C3: a cycle fails the whole Apply\<close>





subsection \<open>C2: a block of an unrecognized type\<close>




definition carriesNode :: "Graph \<Rightarrow> Store \<Rightarrow> BlockStmt \<Rightarrow> NodeType \<Rightarrow> bool" where
  "carriesNode g h b ty =
     (\<exists>r \<in> set (nodes g). r < length h \<and> nodeType (h ! r) = ty
        \<and> NodeID (h ! r) = BlockComponentID b)"

definition hasNodeFor :: "Graph \<Rightarrow> Store \<Rightarrow> BlockStmt \<Rightarrow> NodeType \<Rightarrow> bool" where
  "hasNodeFor g h b ty =
     (\<exists>r \<in> set (nodes g). r < length h \<and> nodeType (h ! r) = ty
        \<and> NodeID (h ! r) = BlockComponentID b \<and> Block (h ! r) = Some b)"

definition unrecognizedDiagnostic :: "BlockStmt \<Rightarrow> Diagnostic" where
  "unrecognizedDiagnostic b =
     errorDiagnostic (''Unrecognized component name '' @ quoted (GetBlockName b))"

lemma hasNodeFor_carries: "hasNodeFor g h b ty \<Longrightarrow> carriesNode g h b ty"
  by (auto simp: hasNodeFor_def carriesNode_def)






lemma Severity_unrecognizedDiagnostic [simp]:
  "Severity (unrecognizedDiagnostic b) = SeverityLevelError"
  by (simp add: unrecognizedDiagnostic_def errorDiagnostic_def)

lemma HasErrors_Cons [simp]:
  "HasErrors (d # ds) = (Severity d = SeverityLevelError \<or> HasErrors ds)"
  by (simp add: HasErrors_def)










section \<open>Verification of the parent notification under concurrency\<close>

text \<open>
  \<open>Apply\<close>, \<open>EvaluateDependencies\<close> and every \<open>concurrentEvalFn\<close> task run on goroutines of
  their own and share the loader through \<open>l.mut\<close>, a \<open>sync.RWMutex\<close>. A goroutine is a thread
  identifier; its program counter says which statement of its function it executes next.
\<close>

type_synonym tid = nat

text \<open>
  The program points of \<open>concurrentEvalFn\<close>: \<open>Reading\<close> after \<open>l.mut.RLock()\<close>, \<open>Cached\<close> after
  \<open>postEvaluate\<close> and the caching of the exports, \<open>Upgrading\<close> and \<open>Releasing\<close> on the two
  branches of the first test (each starts with \<open>l.mut.RUnlock()\<close>), \<open>WaitingWrite\<close> before
  \<open>l.mut.Lock()\<close>, \<open>Rechecking\<close> before the second test, \<open>Notifying\<close> before the call of
  \<open>OnExportsChange\<close>, \<open>Recording\<close> before the assignment of \<open>moduleExportIndex\<close>, \<open>Unlocking\<close>
  before the deferred \<open>l.mut.Unlock()\<close>. Those of \<open>Apply\<close>: \<open>Applying\<close> after \<open>l.mut.Lock()\<close>,
  \<open>ApplyRecording\<close> and \<open>ApplyNotifying\<close> in its last conditional, which assigns first and
  calls second. \<open>Submitting\<close> is \<open>EvaluateDependencies\<close> under its read lock.
\<close>

datatype PC =
    Idle | Reading | Cached | Upgrading | Releasing | WaitingWrite
  | Rechecking | Notifying | Recording | Unlocking
  | Applying | ApplyRecording | ApplyNotifying
  | Submitting | Done

text \<open>
  The loader together with its mutex: the goroutines that hold the read lock, the goroutine
  that holds the write lock, and the program counter of every goroutine.
\<close>

record ConcurrentLoader = Loader +
  readers :: "tid set"
  writer :: "tid option"
  pc :: "tid \<Rightarrow> PC"

text \<open>One atomic statement of one goroutine.\<close>

datatype Action =
    RLock tid | PostEvaluate tid bool | Check tid | RUnlock tid | Lock tid | Recheck tid
  | Callback tid | Record tid | Unlock tid
  | ApplyLock tid | ApplyCache tid | ApplyReturn tid | ApplyCheck tid | ApplyRecord tid
  | ApplyCallback tid
  | DepsRLock tid | DepsCacheExports tid bool | DepsRUnlock tid

definition at :: "ConcurrentLoader \<Rightarrow> tid \<Rightarrow> PC \<Rightarrow> ConcurrentLoader" where
  "at s t p = s\<lparr>pc := (pc s)(t := p)\<rparr>"

definition newVersion :: "ConcurrentLoader \<Rightarrow> bool" where
  "newVersion s = (exportChangeIndex s \<noteq> moduleExportIndex s)"

text \<open>
  One statement of the program. A statement that is not the next one of its goroutine, or a
  lock that cannot be taken (\<open>RLock\<close> while a writer holds the mutex, \<open>Lock\<close> while anyone
  holds it), is not enabled. Modelled from the spec: the cache's export-change index is a
  counter that grows by one when a cached export value changes; \<open>PostEvaluate t changed\<close>,
  \<open>DepsCacheExports t changed\<close> and \<open>ApplyCache t\<close> are the statements that write to the cache,
  under the read lock in \<open>concurrentEvalFn\<close> and \<open>EvaluateDependencies\<close> and under the write
  lock in \<open>Apply\<close>. A call of \<open>OnExportsChange\<close> appends the version it publishes to
  \<open>notified\<close>.
\<close>

fun step :: "Action \<Rightarrow> ConcurrentLoader \<Rightarrow> ConcurrentLoader option" where
  "step (RLock t) s =
     (if pc s t = Idle \<and> writer s = None
      then Some (at (s\<lparr>readers := insert t (readers s)\<rparr>) t Reading) else None)"
| "step (PostEvaluate t changed) s =
     (if pc s t = Reading
      then Some (at (s\<lparr>exportChangeIndex := exportChangeIndex s + (if changed then 1 else 0)\<rparr>)
                   t Cached)
      else None)"
| "step (Check t) s =
     (if pc s t = Cached
      then Some (at s t (if hasOnExportsChange s \<and> newVersion s then Upgrading else Releasing))
      else None)"
| "step (RUnlock t) s =
     (if pc s t = Upgrading then Some (at (s\<lparr>readers := readers s - {t}\<rparr>) t WaitingWrite)
      else if pc s t = Releasing then Some (at (s\<lparr>readers := readers s - {t}\<rparr>) t Done)
      else None)"
| "step (Lock t) s =
     (if pc s t = WaitingWrite \<and> readers s = {} \<and> writer s = None
      then Some (at (s\<lparr>writer := Some t\<rparr>) t Rechecking) else None)"
| "step (Recheck t) s =
     (if pc s t = Rechecking
      then Some (at s t (if newVersion s then Notifying else Unlocking)) else None)"
| "step (Callback t) s =
     (if pc s t = Notifying
      then Some (at (s\<lparr>notified := notified s @ [exportChangeIndex s]\<rparr>) t Recording)
      else None)"
| "step (Record t) s =
     (if pc s t = Recording
      then Some (at (s\<lparr>moduleExportIndex := exportChangeIndex s\<rparr>) t Unlocking) else None)"
| "step (Unlock t) s =
     (if pc s t = Unlocking then Some (at (s\<lparr>writer := None\<rparr>) t Done) else None)"
| "step (ApplyLock t) s =
     (if pc s t = Idle \<and> readers s = {} \<and> writer s = None
      then Some (at (s\<lparr>writer := Some t\<rparr>) t Applying) else None)"
| "step (ApplyCache t) s =
     (if pc s t = Applying
      then Some (s\<lparr>exportChangeIndex := exportChangeIndex s + 1\<rparr>) else None)"
| "step (ApplyReturn t) s =
     (if pc s t = Applying then Some (at s t Unlocking) else None)"
| "step (ApplyCheck t) s =
     (if pc s t = Applying
      then Some (at s t (if hasOnExportsChange s \<and> newVersion s then ApplyRecording else Unlocking))
      else None)"
| "step (ApplyRecord t) s =
     (if pc s t = ApplyRecording
      then Some (at (s\<lparr>moduleExportIndex := exportChangeIndex s\<rparr>) t ApplyNotifying) else None)"
| "step (ApplyCallback t) s =
     (if pc s t = ApplyNotifying
      then Some (at (s\<lparr>notified := notified s @ [exportChangeIndex s]\<rparr>) t Unlocking)
      else None)"
| "step (DepsRLock t) s =
     (if pc s t = Idle \<and> writer s = None
      then Some (at (s\<lparr>readers := insert t (readers s)\<rparr>) t Submitting) else None)"
| "step (DepsCacheExports t changed) s =
     (if pc s t = Submitting
      then Some (s\<lparr>exportChangeIndex := exportChangeIndex s + (if changed then 1 else 0)\<rparr>)
      else None)"
| "step (DepsRUnlock t) s =
     (if pc s t = Submitting then Some (at (s\<lparr>readers := readers s - {t}\<rparr>) t Done)
      else None)"

text \<open>An interleaving of the goroutines is a list of statements executed in order.\<close>

fun run :: "Action list \<Rightarrow> ConcurrentLoader \<Rightarrow> ConcurrentLoader option" where
  "run [] s = Some s"
| "run (a # as) s = (case step a s of None \<Rightarrow> None | Some s' \<Rightarrow> run as s')"

text \<open>A loader at rest: nobody holds the mutex and no goroutine has started.\<close>

definition initial :: "ConcurrentLoader \<Rightarrow> bool" where
  "initial s = (readers s = {} \<and> writer s = None \<and> (\<forall>t. pc s t = Idle)
      \<and> notified s = [] \<and> moduleExportIndex s \<le> exportChangeIndex s)"

text \<open>The program points at which a goroutine holds the read lock, or the write lock.\<close>

fun holdsRead :: "PC \<Rightarrow> bool" where
  "holdsRead Reading = True"
| "holdsRead Cached = True"
| "holdsRead Upgrading = True"
| "holdsRead Releasing = True"
| "holdsRead Submitting = True"
| "holdsRead _ = False"

fun holdsWrite :: "PC \<Rightarrow> bool" where
  "holdsWrite Rechecking = True"
| "holdsWrite Notifying = True"
| "holdsWrite Recording = True"
| "holdsWrite Unlocking = True"
| "holdsWrite Applying = True"
| "holdsWrite ApplyRecording = True"
| "holdsWrite ApplyNotifying = True"
| "holdsWrite _ = False"

text \<open>
  The mutex agrees with the program counters, and a writer excludes every reader.
\<close>

definition lockInv :: "ConcurrentLoader \<Rightarrow> bool" where
  "lockInv s =
     ((\<forall>t. (t \<in> readers s) = holdsRead (pc s t))
    \<and> (\<forall>t. (writer s = Some t) = holdsWrite (pc s t))
    \<and> (\<forall>t t'. holdsWrite (pc s t) \<longrightarrow> \<not> holdsRead (pc s t')))"

text \<open>
  The published versions are strictly increasing and, except for the one being recorded,
  at most the last recorded index.
\<close>

definition versionInv :: "ConcurrentLoader \<Rightarrow> bool" where
  "versionInv s =
     (moduleExportIndex s \<le> exportChangeIndex s
    \<and> sorted_wrt (<) (notified s)
    \<and> (\<forall>t. pc s t = Notifying \<or> pc s t = ApplyRecording
            \<longrightarrow> moduleExportIndex s < exportChangeIndex s)
    \<and> (\<forall>t. pc s t = Recording \<longrightarrow>
            notified s \<noteq> [] \<and> last (notified s) = exportChangeIndex s
            \<and> (\<forall>v \<in> set (butlast (notified s)). v \<le> moduleExportIndex s))
    \<and> ((\<forall>t. pc s t \<noteq> Recording) \<longrightarrow> (\<forall>v \<in> set (notified s). v \<le> moduleExportIndex s))
    \<and> (\<forall>t. pc s t = ApplyNotifying \<longrightarrow>
            moduleExportIndex s = exportChangeIndex s
            \<and> (\<forall>v \<in> set (notified s). v < exportChangeIndex s)))"

lemma lockInv_writer_None: "lockInv s \<Longrightarrow> (writer s = None) = (\<forall>t. \<not> holdsWrite (pc s t))"
  unfolding lockInv_def by (metis option.exhaust option.simps(3))

lemma lockInv_readers_empty: "lockInv s \<Longrightarrow> (readers s = {}) = (\<forall>t. \<not> holdsRead (pc s t))"
  unfolding lockInv_def by blast

lemma lockInv_unique:
  "lockInv s \<Longrightarrow> holdsWrite (pc s t) \<Longrightarrow> holdsWrite (pc s t') \<Longrightarrow> t = t'"
  unfolding lockInv_def by (metis option.inject)

lemma lockInv_exclusive:
  "lockInv s \<Longrightarrow> holdsWrite (pc s t) \<Longrightarrow> \<not> holdsRead (pc s t')"
  unfolding lockInv_def by blast

lemma lockInv_at_same:
  assumes "lockInv s" and "holdsRead p = holdsRead (pc s t)" and "holdsWrite p = holdsWrite (pc s t)"
  shows "lockInv (at s t p)"
  using assms unfolding lockInv_def at_def by auto

lemma lockInv_index [simp]: "lockInv (s\<lparr>exportChangeIndex := i\<rparr>) = lockInv s"
  "lockInv (s\<lparr>moduleExportIndex := i\<rparr>) = lockInv s"
  "lockInv (s\<lparr>notified := n\<rparr>) = lockInv s"
  by (simp_all add: lockInv_def)

lemma at_index [simp]:
  "at (s\<lparr>exportChangeIndex := i\<rparr>) t p = (at s t p)\<lparr>exportChangeIndex := i\<rparr>"
  "at (s\<lparr>moduleExportIndex := i\<rparr>) t p = (at s t p)\<lparr>moduleExportIndex := i\<rparr>"
  "at (s\<lparr>notified := n\<rparr>) t p = (at s t p)\<lparr>notified := n\<rparr>"
  by (simp_all add: at_def)

lemma lockInv_step:
  assumes inv: "lockInv s" and st: "step a s = Some s'"
  shows "lockInv s'"
proof (cases a)
  case (RLock t)
  with st have g: "pc s t = Idle" "writer s = None"
    and s': "s' = at (s\<lparr>readers := insert t (readers s)\<rparr>) t Reading"
    by (auto split: if_splits)
  from g(2) inv have "\<forall>t. \<not> holdsWrite (pc s t)" by (simp add: lockInv_writer_None)
  with inv g show ?thesis unfolding s' lockInv_def at_def by auto
next
  case (PostEvaluate t changed)
  with st have g: "pc s t = Reading"
    and s': "s' = at (s\<lparr>exportChangeIndex := exportChangeIndex s + (if changed then 1 else 0)\<rparr>) t Cached"
    by (auto split: if_splits)
  from inv g show ?thesis unfolding s' by (simp add: lockInv_at_same)
next
  case (Check t)
  with st have g: "pc s t = Cached"
    and s': "s' = at s t (if hasOnExportsChange s \<and> newVersion s then Upgrading else Releasing)"
    by (auto split: if_splits)
  from inv g show ?thesis unfolding s' by (simp add: lockInv_at_same)
next
  case (RUnlock t)
  with st consider "pc s t = Upgrading" "s' = at (s\<lparr>readers := readers s - {t}\<rparr>) t WaitingWrite"
    | "pc s t = Releasing" "s' = at (s\<lparr>readers := readers s - {t}\<rparr>) t Done"
    by (auto split: if_splits)
  then show ?thesis
  proof cases
    case 1
    with inv show ?thesis unfolding lockInv_def at_def by auto
  next
    case 2
    with inv show ?thesis unfolding lockInv_def at_def by auto
  qed
next
  case (Lock t)
  with st have g: "pc s t = WaitingWrite" "readers s = {}" "writer s = None"
    and s': "s' = at (s\<lparr>writer := Some t\<rparr>) t Rechecking"
    by (auto split: if_splits)
  from g inv have "\<forall>t. \<not> holdsWrite (pc s t)" "\<forall>t. \<not> holdsRead (pc s t)"
    by (simp_all add: lockInv_writer_None lockInv_readers_empty)
  with inv g show ?thesis unfolding s' lockInv_def at_def by auto
next
  case (Recheck t)
  with st have g: "pc s t = Rechecking"
    and s': "s' = at s t (if newVersion s then Notifying else Unlocking)"
    by (auto split: if_splits)
  from inv g show ?thesis unfolding s' by (simp add: lockInv_at_same)
next
  case (Callback t)
  with st have g: "pc s t = Notifying"
    and s': "s' = at (s\<lparr>notified := notified s @ [exportChangeIndex s]\<rparr>) t Recording"
    by (auto split: if_splits)
  from inv g show ?thesis unfolding s' by (simp add: lockInv_at_same)
next
  case (Record t)
  with st have g: "pc s t = Recording"
    and s': "s' = at (s\<lparr>moduleExportIndex := exportChangeIndex s\<rparr>) t Unlocking"
    by (auto split: if_splits)
  from inv g show ?thesis unfolding s' by (simp add: lockInv_at_same)
next
  case (Unlock t)
  with st have g: "pc s t = Unlocking"
    and s': "s' = at (s\<lparr>writer := None\<rparr>) t Done"
    by (auto split: if_splits)
  from g have w: "holdsWrite (pc s t)" by simp
  have "\<not> holdsWrite (pc s t')" if "t' \<noteq> t" for t'
    using lockInv_unique [OF inv w, of t'] that by auto
  with inv g show ?thesis unfolding s' lockInv_def at_def by auto
next
  case (ApplyLock t)
  with st have g: "pc s t = Idle" "readers s = {}" "writer s = None"
    and s': "s' = at (s\<lparr>writer := Some t\<rparr>) t Applying"
    by (auto split: if_splits)
  from g inv have "\<forall>t. \<not> holdsWrite (pc s t)" "\<forall>t. \<not> holdsRead (pc s t)"
    by (simp_all add: lockInv_writer_None lockInv_readers_empty)
  with inv g show ?thesis unfolding s' lockInv_def at_def by auto
next
  case (ApplyCache t)
  with st inv show ?thesis by (auto split: if_splits)
next
  case (ApplyReturn t)
  with st have g: "pc s t = Applying" and s': "s' = at s t Unlocking"
    by (auto split: if_splits)
  from inv g show ?thesis unfolding s' by (simp add: lockInv_at_same)
next
  case (ApplyCheck t)
  with st have g: "pc s t = Applying"
    and s': "s' = at s t (if hasOnExportsChange s \<and> newVersion s then ApplyRecording else Unlocking)"
    by (auto split: if_splits)
  from inv g show ?thesis unfolding s' by (simp add: lockInv_at_same)
next
  case (ApplyRecord t)
  with st have g: "pc s t = ApplyRecording"
    and s': "s' = at (s\<lparr>moduleExportIndex := exportChangeIndex s\<rparr>) t ApplyNotifying"
    by (auto split: if_splits)
  from inv g show ?thesis unfolding s' by (simp add: lockInv_at_same)
next
  case (ApplyCallback t)
  with st have g: "pc s t = ApplyNotifying"
    and s': "s' = at (s\<lparr>notified := notified s @ [exportChangeIndex s]\<rparr>) t Unlocking"
    by (auto split: if_splits)
  from inv g show ?thesis unfolding s' by (simp add: lockInv_at_same)
next
  case (DepsRLock t)
  with st have g: "pc s t = Idle" "writer s = None"
    and s': "s' = at (s\<lparr>readers := insert t (readers s)\<rparr>) t Submitting"
    by (auto split: if_splits)
  from g(2) inv have "\<forall>t. \<not> holdsWrite (pc s t)" by (simp add: lockInv_writer_None)
  with inv g show ?thesis unfolding s' lockInv_def at_def by auto
next
  case (DepsCacheExports t changed)
  with st inv show ?thesis by (auto split: if_splits)
next
  case (DepsRUnlock t)
  with st have g: "pc s t = Submitting"
    and s': "s' = at (s\<lparr>readers := readers s - {t}\<rparr>) t Done"
    by (auto split: if_splits)
  with inv show ?thesis unfolding lockInv_def at_def by auto
qed

fun special :: "PC \<Rightarrow> bool" where
  "special Notifying = True"
| "special Recording = True"
| "special ApplyRecording = True"
| "special ApplyNotifying = True"
| "special _ = False"

lemma special_holdsWrite: "special p \<Longrightarrow> holdsWrite p"
  by (cases p) simp_all

lemma versionInv_locks [simp]:
  "versionInv (s\<lparr>readers := r\<rparr>) = versionInv s"
  "versionInv (s\<lparr>writer := w\<rparr>) = versionInv s"
  by (simp_all add: versionInv_def)

lemma at_locks [simp]:
  "at (s\<lparr>readers := r\<rparr>) t p = (at s t p)\<lparr>readers := r\<rparr>"
  "at (s\<lparr>writer := w\<rparr>) t p = (at s t p)\<lparr>writer := w\<rparr>"
  by (simp_all add: at_def)

lemma versionInv_at_plain:
  assumes "versionInv s" and "\<not> special (pc s t)" and "\<not> special p"
  shows "versionInv (at s t p)"
proof -
  have same: "(pc (at s t p) t' = q) = (pc s t' = q)" if "special q" for t' q
    using that assms(2,3) by (auto simp: at_def)
  have eqs: "\<And>t'. (pc (at s t p) t' = Notifying) = (pc s t' = Notifying)"
    "\<And>t'. (pc (at s t p) t' = Recording) = (pc s t' = Recording)"
    "\<And>t'. (pc (at s t p) t' = ApplyRecording) = (pc s t' = ApplyRecording)"
    "\<And>t'. (pc (at s t p) t' = ApplyNotifying) = (pc s t' = ApplyNotifying)"
    by (simp_all add: same)
  have fields: "moduleExportIndex (at s t p) = moduleExportIndex s"
    "exportChangeIndex (at s t p) = exportChangeIndex s" "notified (at s t p) = notified s"
    by (simp_all add: at_def)
  from assms(1) show ?thesis
    unfolding versionInv_def eqs fields .
qed

lemma no_special_if_no_writer:
  assumes "lockInv s" and "\<not> holdsWrite (pc s t)" and "holdsRead (pc s t) \<or> writer s = None"
  shows "\<not> special (pc s t')"
proof
  assume "special (pc s t')"
  then have w: "holdsWrite (pc s t')" by (rule special_holdsWrite)
  from assms(3) show False
  proof
    assume "holdsRead (pc s t)"
    with lockInv_exclusive [OF assms(1) w, of t] show False by simp
  next
    assume "writer s = None"
    with assms(1) w show False by (simp add: lockInv_writer_None)
  qed
qed

lemma only_writer_special:
  assumes "lockInv s" and "holdsWrite (pc s t)" and "t' \<noteq> t"
  shows "\<not> special (pc s t')"
proof
  assume "special (pc s t')"
  then have "holdsWrite (pc s t')" by (rule special_holdsWrite)
  from lockInv_unique [OF assms(1,2) this] assms(3) show False by simp
qed

lemma versionInv_bump:
  assumes inv: "versionInv s" and none: "\<And>t. \<not> special (pc s t)" and "0 \<le> d"
  shows "versionInv (s\<lparr>exportChangeIndex := exportChangeIndex s + d\<rparr>)"
proof -
  have n: "pc s t \<noteq> Notifying" "pc s t \<noteq> Recording" "pc s t \<noteq> ApplyRecording"
    "pc s t \<noteq> ApplyNotifying" for t
    using none [of t] by auto
  from inv assms(3) show ?thesis
    unfolding versionInv_def by (simp add: n)
qed

lemma versionInv_step:
  assumes lk: "lockInv s" and inv: "versionInv s" and st: "step a s = Some s'"
  shows "versionInv s'"
proof (cases a)
  case (RLock t)
  with st have g: "pc s t = Idle"
    and s': "s' = at (s\<lparr>readers := insert t (readers s)\<rparr>) t Reading"
    by (auto split: if_splits)
  from inv g show ?thesis unfolding s' by (simp add: versionInv_at_plain)
next
  case (PostEvaluate t changed)
  with st have g: "pc s t = Reading"
    and s': "s' = at (s\<lparr>exportChangeIndex := exportChangeIndex s + (if changed then 1 else 0)\<rparr>) t Cached"
    by (auto split: if_splits)
  have none: "\<not> special (pc s t')" for t'
    using no_special_if_no_writer [OF lk, of t t'] g by simp
  from versionInv_bump [OF inv none, of "if changed then 1 else 0"]
  have "versionInv (s\<lparr>exportChangeIndex := exportChangeIndex s + (if changed then 1 else 0)\<rparr>)"
    by simp
  then have "versionInv (at (s\<lparr>exportChangeIndex := exportChangeIndex s + (if changed then 1 else 0)\<rparr>) t Cached)"
    using g by (intro versionInv_at_plain) simp_all
  then show ?thesis unfolding s' .
next
  case (Check t)
  with st have g: "pc s t = Cached"
    and s': "s' = at s t (if hasOnExportsChange s \<and> newVersion s then Upgrading else Releasing)"
    by (auto split: if_splits)
  from inv g show ?thesis unfolding s' by (simp add: versionInv_at_plain)
next
  case (RUnlock t)
  with st consider "pc s t = Upgrading" "s' = at (s\<lparr>readers := readers s - {t}\<rparr>) t WaitingWrite"
    | "pc s t = Releasing" "s' = at (s\<lparr>readers := readers s - {t}\<rparr>) t Done"
    by (auto split: if_splits)
  then show ?thesis
  proof cases
    case 1
    with inv show ?thesis by (simp add: versionInv_at_plain)
  next
    case 2
    with inv show ?thesis by (simp add: versionInv_at_plain)
  qed
next
  case (Lock t)
  with st have g: "pc s t = WaitingWrite"
    and s': "s' = at (s\<lparr>writer := Some t\<rparr>) t Rechecking"
    by (auto split: if_splits)
  from inv g show ?thesis unfolding s' by (simp add: versionInv_at_plain)
next
  case (Recheck t)
  with st have g: "pc s t = Rechecking"
    and s': "s' = at s t (if newVersion s then Notifying else Unlocking)"
    by (auto split: if_splits)
  show ?thesis
  proof (cases "newVersion s")
    case False
    with inv g show ?thesis unfolding s' by (simp add: versionInv_at_plain)
  next
    case True
    from g have w: "holdsWrite (pc s t)" by simp
    have others: "\<not> special (pc s t')" if "t' \<noteq> t" for t'
      using only_writer_special [OF lk w that] .
    have pcs: "pc s t' \<noteq> Notifying \<and> pc s t' \<noteq> Recording \<and> pc s t' \<noteq> ApplyRecording
        \<and> pc s t' \<noteq> ApplyNotifying" for t'
      using others [of t'] g by (cases "t' = t") auto
    from inv True have lt: "moduleExportIndex s < exportChangeIndex s"
      by (simp add: versionInv_def newVersion_def)
    from inv pcs lt True show ?thesis
      unfolding s' versionInv_def at_def by simp
  qed
next
  case (Callback t)
  with st have g: "pc s t = Notifying"
    and s': "s' = at (s\<lparr>notified := notified s @ [exportChangeIndex s]\<rparr>) t Recording"
    by (auto split: if_splits)
  from g have w: "holdsWrite (pc s t)" by simp
  have pcs: "pc s t' \<noteq> Recording \<and> pc s t' \<noteq> ApplyRecording \<and> pc s t' \<noteq> ApplyNotifying
      \<and> (t' \<noteq> t \<longrightarrow> pc s t' \<noteq> Notifying)" for t'
    using only_writer_special [OF lk w, of t'] g by (cases "t' = t") auto
  from inv g have lt: "moduleExportIndex s < exportChangeIndex s"
    by (auto simp: versionInv_def)
  from inv pcs have le: "\<forall>v \<in> set (notified s). v \<le> moduleExportIndex s"
    by (simp add: versionInv_def)
  with lt have below: "\<forall>v \<in> set (notified s). v < exportChangeIndex s" by fastforce
  from inv have srt: "sorted_wrt (<) (notified s)" by (simp add: versionInv_def)
  from srt below have srt': "sorted_wrt (<) (notified s @ [exportChangeIndex s])"
    by (simp add: sorted_wrt_append)
  from lt le srt' pcs show ?thesis
    unfolding s' versionInv_def at_def by auto
next
  case (Record t)
  with st have g: "pc s t = Recording"
    and s': "s' = at (s\<lparr>moduleExportIndex := exportChangeIndex s\<rparr>) t Unlocking"
    by (auto split: if_splits)
  from g have w: "holdsWrite (pc s t)" by simp
  have pcs: "pc s t' \<noteq> Notifying \<and> pc s t' \<noteq> ApplyRecording \<and> pc s t' \<noteq> ApplyNotifying
      \<and> (t' \<noteq> t \<longrightarrow> pc s t' \<noteq> Recording)" for t'
    using only_writer_special [OF lk w, of t'] g by (cases "t' = t") auto
  from inv g have ne: "notified s \<noteq> []" and lst: "last (notified s) = exportChangeIndex s"
    and bl: "\<forall>v \<in> set (butlast (notified s)). v \<le> moduleExportIndex s"
    and le: "moduleExportIndex s \<le> exportChangeIndex s"
    and srt: "sorted_wrt (<) (notified s)"
    by (auto simp: versionInv_def)
  have all: "\<forall>v \<in> set (notified s). v \<le> exportChangeIndex s"
  proof
    fix v assume "v \<in> set (notified s)"
    with ne have "v \<in> set (butlast (notified s)) \<or> v = last (notified s)"
      by (metis append_butlast_last_id in_set_conv_decomp rotate1.simps(2) set_ConsD set_rotate1)
    with bl le lst show "v \<le> exportChangeIndex s" by fastforce
  qed
  from all srt pcs show ?thesis
    unfolding s' versionInv_def at_def by auto
next
  case (Unlock t)
  with st have g: "pc s t = Unlocking" and s': "s' = at (s\<lparr>writer := None\<rparr>) t Done"
    by (auto split: if_splits)
  from inv g show ?thesis unfolding s' by (simp add: versionInv_at_plain)
next
  case (ApplyLock t)
  with st have g: "pc s t = Idle" and s': "s' = at (s\<lparr>writer := Some t\<rparr>) t Applying"
    by (auto split: if_splits)
  from inv g show ?thesis unfolding s' by (simp add: versionInv_at_plain)
next
  case (ApplyCache t)
  with st have g: "pc s t = Applying"
    and s': "s' = s\<lparr>exportChangeIndex := exportChangeIndex s + 1\<rparr>"
    by (auto split: if_splits)
  from g have w: "holdsWrite (pc s t)" by simp
  have none: "\<not> special (pc s t')" for t'
    using only_writer_special [OF lk w, of t'] g by (cases "t' = t") auto
  from versionInv_bump [OF inv none, of 1] show ?thesis unfolding s' by simp
next
  case (ApplyReturn t)
  with st have g: "pc s t = Applying" and s': "s' = at s t Unlocking"
    by (auto split: if_splits)
  from inv g show ?thesis unfolding s' by (simp add: versionInv_at_plain)
next
  case (ApplyCheck t)
  with st have g: "pc s t = Applying"
    and s': "s' = at s t (if hasOnExportsChange s \<and> newVersion s then ApplyRecording else Unlocking)"
    by (auto split: if_splits)
  show ?thesis
  proof (cases "hasOnExportsChange s \<and> newVersion s")
    case False
    with inv g show ?thesis unfolding s' by (simp add: versionInv_at_plain)
  next
    case True
    from g have w: "holdsWrite (pc s t)" by simp
    have pcs: "pc s t' \<noteq> Notifying \<and> pc s t' \<noteq> Recording \<and> pc s t' \<noteq> ApplyRecording
        \<and> pc s t' \<noteq> ApplyNotifying" for t'
      using only_writer_special [OF lk w, of t'] g by (cases "t' = t") auto
    from inv True have lt: "moduleExportIndex s < exportChangeIndex s"
      by (simp add: versionInv_def newVersion_def)
    from inv pcs lt True show ?thesis
      unfolding s' versionInv_def at_def by simp
  qed
next
  case (ApplyRecord t)
  with st have g: "pc s t = ApplyRecording"
    and s': "s' = at (s\<lparr>moduleExportIndex := exportChangeIndex s\<rparr>) t ApplyNotifying"
    by (auto split: if_splits)
  from g have w: "holdsWrite (pc s t)" by simp
  have pcs: "pc s t' \<noteq> Notifying \<and> pc s t' \<noteq> Recording \<and> pc s t' \<noteq> ApplyNotifying
      \<and> (t' \<noteq> t \<longrightarrow> pc s t' \<noteq> ApplyRecording)" for t'
    using only_writer_special [OF lk w, of t'] g by (cases "t' = t") auto
  from inv g have lt: "moduleExportIndex s < exportChangeIndex s"
    by (auto simp: versionInv_def)
  from inv pcs have le: "\<forall>v \<in> set (notified s). v \<le> moduleExportIndex s"
    by (simp add: versionInv_def)
  with lt have below: "\<forall>v \<in> set (notified s). v < exportChangeIndex s" by fastforce
  from inv have srt: "sorted_wrt (<) (notified s)" by (simp add: versionInv_def)
  from below srt pcs show ?thesis
    unfolding s' versionInv_def at_def by auto
next
  case (ApplyCallback t)
  with st have g: "pc s t = ApplyNotifying"
    and s': "s' = at (s\<lparr>notified := notified s @ [exportChangeIndex s]\<rparr>) t Unlocking"
    by (auto split: if_splits)
  from g have w: "holdsWrite (pc s t)" by simp
  have pcs: "pc s t' \<noteq> Notifying \<and> pc s t' \<noteq> Recording \<and> pc s t' \<noteq> ApplyRecording
      \<and> (t' \<noteq> t \<longrightarrow> pc s t' \<noteq> ApplyNotifying)" for t'
    using only_writer_special [OF lk w, of t'] g by (cases "t' = t") auto
  from inv g have eq: "moduleExportIndex s = exportChangeIndex s"
    and below: "\<forall>v \<in> set (notified s). v < exportChangeIndex s"
    and srt: "sorted_wrt (<) (notified s)"
    by (auto simp: versionInv_def)
  from srt below have srt': "sorted_wrt (<) (notified s @ [exportChangeIndex s])"
    by (simp add: sorted_wrt_append)
  from below have "\<forall>v \<in> set (notified s). v \<le> exportChangeIndex s" by fastforce
  with eq srt' pcs show ?thesis
    unfolding s' versionInv_def at_def by auto
next
  case (DepsRLock t)
  with st have g: "pc s t = Idle"
    and s': "s' = at (s\<lparr>readers := insert t (readers s)\<rparr>) t Submitting"
    by (auto split: if_splits)
  from inv g show ?thesis unfolding s' by (simp add: versionInv_at_plain)
next
  case (DepsCacheExports t changed)
  with st have g: "pc s t = Submitting"
    and s': "s' = s\<lparr>exportChangeIndex := exportChangeIndex s + (if changed then 1 else 0)\<rparr>"
    by (auto split: if_splits)
  have none: "\<not> special (pc s t')" for t'
    using no_special_if_no_writer [OF lk, of t t'] g by simp
  from versionInv_bump [OF inv none, of "if changed then 1 else 0"] show ?thesis
    unfolding s' by simp
next
  case (DepsRUnlock t)
  with st have g: "pc s t = Submitting"
    and s': "s' = at (s\<lparr>readers := readers s - {t}\<rparr>) t Done"
    by (auto split: if_splits)
  from inv g show ?thesis unfolding s' by (simp add: versionInv_at_plain)
qed

lemma initial_inv:
  assumes "initial s"
  shows "lockInv s" and "versionInv s"
  using assms by (simp_all add: initial_def lockInv_def versionInv_def)

lemma run_inv:
  "lockInv s \<Longrightarrow> versionInv s \<Longrightarrow> run as s = Some s' \<Longrightarrow> lockInv s' \<and> versionInv s'"
proof (induction as arbitrary: s)
  case Nil
  then show ?case by simp
next
  case (Cons a as)
  from Cons.prems(3) obtain s1 where a: "step a s = Some s1" and rest: "run as s1 = Some s'"
    by (auto split: option.splits)
  from lockInv_step [OF Cons.prems(1) a] versionInv_step [OF Cons.prems(1,2) a] rest
  show ?case by (rule Cons.IH)
qed

text \<open>A module loader at rest, and a race of two evaluations: both take the read lock,
  the first changes a module export, both see a new version and ask for the write lock;
  the first gets it, notifies and records; the second gets it, checks again and leaves.\<close>

definition moduleLoader :: ConcurrentLoader where
  "moduleLoader =
     \<lparr>services = [], registered = [], hasOnExportsChange = True, ControllerID = ''module'',
      graph = emptyGraph, originalGraph = emptyGraph, componentNodes = [], serviceNodes = [],
      blocks = [], moduleExportIndex = 0, exportChangeIndex = 0, store = [],
      evaluated = [], notified = [],
      readers = {}, writer = None, pc = (\<lambda>t. Idle)\<rparr>"

definition raceOfTwo :: "Action list" where
  "raceOfTwo =
     [RLock 0, RLock 1, PostEvaluate 0 True, PostEvaluate 1 False, Check 0, Check 1,
      RUnlock 0, RUnlock 1, Lock 0, Recheck 0, Callback 0, Record 0, Unlock 0,
      Lock 1, Recheck 1, Unlock 1]"

text \<open>
  C8. In a nested module (\<open>OnExportsChange\<close> is set) the parent callback is invoked at most
  once for each export-change version, whatever the interleaving of \<open>Apply\<close>,
  \<open>EvaluateDependencies\<close> and any number of \<open>concurrentEvalFn\<close> tasks: in every state reached
  from a loader at rest the versions published so far are pairwise distinct (they are strictly
  increasing), and a task that is about to invoke the callback holds the write lock, no
  reader is left, and the cache's index still differs from the last recorded one, which it
  has checked again after taking the write lock.
\<close>

theorem concurrentEvalFn_notifies_once:
  assumes "initial s0" and "run actions s0 = Some s"
  shows "distinct (notified s) \<and> sorted_wrt (<) (notified s)
    \<and> (\<forall>t. pc s t = Notifying \<longrightarrow>
          writer s = Some t \<and> readers s = {} \<and> exportChangeIndex s \<noteq> moduleExportIndex s)"
proof -
  from initial_inv [OF assms(1)] assms(2) have lk: "lockInv s" and inv: "versionInv s"
    using run_inv by blast+
  from inv have srt: "sorted_wrt (<) (notified s)" by (simp add: versionInv_def)
  then have "distinct (notified s)" by (simp add: strict_sorted_iff)
  moreover have "writer s = Some t \<and> readers s = {} \<and> exportChangeIndex s \<noteq> moduleExportIndex s"
    if "pc s t = Notifying" for t
  proof -
    from that have w: "holdsWrite (pc s t)" by simp
    with lk have "writer s = Some t" by (simp add: lockInv_def)
    moreover from lk w have "readers s = {}"
      using lockInv_exclusive [OF lk w] by (simp add: lockInv_readers_empty)
    moreover from inv that have "moduleExportIndex s < exportChangeIndex s"
      by (auto simp: versionInv_def)
    ultimately show ?thesis by simp
  qed
  ultimately show ?thesis using srt by blast
qed

text \<open>
  The race of two evaluations: both saw the new version under the read lock, the second
  finds it recorded once it holds the write lock, and the callback has run once.
\<close>

theorem concurrentEvalFn_notifies_once_witness:
  "initial moduleLoader
   \<and> map_option notified (run raceOfTwo moduleLoader) = Some [1]
   \<and> map_option (\<lambda>s. (pc s 0, pc s 1)) (run raceOfTwo moduleLoader) = Some (Done, Done)
   \<and> (\<exists>s. run raceOfTwo moduleLoader = Some s \<and> distinct (notified s))"
proof -
  have init: "initial moduleLoader"
    by (simp add: initial_def moduleLoader_def)
  have n: "map_option notified (run raceOfTwo moduleLoader) = Some [1]"
    by code_simp
  have p: "map_option (\<lambda>s. (pc s 0, pc s 1)) (run raceOfTwo moduleLoader) = Some (Done, Done)"
    by code_simp
  from n obtain s where s: "run raceOfTwo moduleLoader = Some s" by auto
  from concurrentEvalFn_notifies_once [OF init s] have "distinct (notified s)" by simp
  with init n p s show ?thesis by blast
qed

section \<open>Submission of the dependants: retries with backoff\<close>

text \<open>
  A \<open>time.Duration\<close> is a number of nanoseconds in 64 bits. Durations are integers here;
  the statements below keep \<open>MaxBackoff\<close> under \<open>2 ^ 62\<close>, where doubling does not wrap.
\<close>

type_synonym Duration = int

definition Millisecond :: Duration where "Millisecond = 1000000"
definition Second :: Duration where "Second = 1000 * Millisecond"

text \<open>
  \<open>backoff.Config\<close>, and the \<open>backoffConfig\<close> that \<open>NewLoader\<close> gives every loader: between one
  millisecond and ten seconds, with no limit on the number of retries.
\<close>

record Config =
  MinBackoff :: Duration
  MaxBackoff :: Duration
  MaxRetries :: int

definition backoffConfig :: Config where
  "backoffConfig = \<lparr>MinBackoff = 1 * Millisecond, MaxBackoff = 10 * Second, MaxRetries = 0\<rparr>"

text \<open>
  Modelled from the spec: the backoff policy, package \<open>backoff\<close> of the library dskit, whose
  source is not among the sources of the repository. The spec asks for an exponential
  backoff between the configured minimum and maximum interval, that stops when the
  caller's context is cancelled and counts the retries. The policy keeps the number of
  retries and the range of the next delay. The context lives in \<open>Surroundings\<close>.
\<close>

record Backoff =
  config :: Config
  numRetries :: nat
  nextDelayMin :: Duration
  nextDelayMax :: Duration

text \<open>
  What \<open>EvaluateDependencies\<close> cannot control: the time at which the caller cancels the
  context (if ever), whether the worker pool's queue is full at the k-th call of
  \<open>SubmitWithKey\<close> (modelled from the spec: the call does not block and returns an error when
  the queue is at capacity), and the random source of the jitter.
\<close>

record Surroundings =
  cancelledAt :: "int option"
  queueFull :: "nat \<Rightarrow> bool"
  jitter :: "nat \<Rightarrow> int"

text \<open>
  What a run of the submission loop does: the time, the calls of \<open>SubmitWithKey\<close> (node and
  time of the call), the nodes the pool has accepted, the lines logged on a failure (node,
  originator, \<open>retries\<close>), the delays the policy has computed, and the spans closed
  (node, originator, its \<open>retries\<close> attribute, whether its status is an error).
\<close>

record Submission =
  clock :: int
  attempts :: "(ref \<times> int) list"
  queued :: "ref list"
  retryLog :: "(ref \<times> ref \<times> nat) list"
  delays :: "Duration list"
  spans :: "(ref \<times> ref \<times> nat \<times> bool) list"

text \<open>\<open>ctx.Err() != nil\<close>: the context is cancelled from its cancellation time on.\<close>

definition ctxErr :: "Surroundings \<Rightarrow> Submission \<Rightarrow> bool" where
  "ctxErr env s = (case cancelledAt env of None \<Rightarrow> False | Some T \<Rightarrow> T \<le> clock s)"

text \<open>
  Modelled from the spec: \<open>backoff.New\<close>, \<open>Ongoing\<close>, \<open>NumRetries\<close>, \<open>NextDelay\<close> and \<open>Wait\<close>. The
  first delay is drawn between \<open>MinBackoff\<close> and twice that; both ends of the range double
  after every delay until the upper end has reached \<open>MaxBackoff\<close>. \<open>Wait\<close> counts the retry and
  sleeps for the delay, or until the context is cancelled if that comes first.
\<close>

definition doubleDuration :: "Duration \<Rightarrow> Duration \<Rightarrow> Duration" where
  "doubleDuration v m = (if v * 2 \<le> m then v * 2 else m)"

definition New :: "Config \<Rightarrow> Backoff" where
  "New c = \<lparr>config = c, numRetries = 0, nextDelayMin = MinBackoff c,
             nextDelayMax = doubleDuration (MinBackoff c) (MaxBackoff c)\<rparr>"

definition Ongoing :: "Surroundings \<Rightarrow> Submission \<Rightarrow> Backoff \<Rightarrow> bool" where
  "Ongoing env s b =
     (\<not> ctxErr env s \<and> (MaxRetries (config b) = 0 \<or> int (numRetries b) < MaxRetries (config b)))"

definition NumRetries :: "Backoff \<Rightarrow> nat" where
  "NumRetries b = numRetries b"

definition NextDelay :: "Surroundings \<Rightarrow> nat \<Rightarrow> Backoff \<Rightarrow> Duration \<times> Backoff" where
  "NextDelay env k b =
     (let b1 = b\<lparr>numRetries := numRetries b + 1\<rparr> in
      if nextDelayMin b1 \<ge> nextDelayMax b1 then (nextDelayMin b1, b1)
      else
        (let sleepTime = nextDelayMin b1 + jitter env k mod (nextDelayMax b1 - nextDelayMin b1) in
         (sleepTime,
          if nextDelayMax b1 < MaxBackoff (config b1)
          then b1\<lparr>nextDelayMin := doubleDuration (nextDelayMin b1) (MaxBackoff (config b1)),
                  nextDelayMax := doubleDuration (nextDelayMax b1) (MaxBackoff (config b1))\<rparr>
          else b1)))"

definition sleepUntil :: "Surroundings \<Rightarrow> Submission \<Rightarrow> Duration \<Rightarrow> int" where
  "sleepUntil env s d =
     (case cancelledAt env of
        None \<Rightarrow> clock s + max 0 d
      | Some T \<Rightarrow> min T (clock s + max 0 d))"

definition Wait :: "Surroundings \<Rightarrow> Backoff \<Rightarrow> Submission \<Rightarrow> Backoff \<times> Submission" where
  "Wait env b s =
     (case NextDelay env (length (delays s)) b of
        (sleepTime, b') \<Rightarrow>
          (let s1 = s\<lparr>delays := delays s @ [sleepTime]\<rparr> in
           (b', if Ongoing env s1 b' then s1\<lparr>clock := sleepUntil env s1 sleepTime\<rparr> else s1)))"

text \<open>
  The inner loop of \<open>EvaluateDependencies\<close> for one dependant:
  \<open>for retryBackoff.Ongoing() { err = SubmitWithKey(...); if err != nil { log; Wait() } else { break } }\<close>.
  It returns the policy, whether \<open>err\<close> is set, and the state. A loop that never ends has
  no result.
\<close>

partial_function (option) retryLoop ::
  "Surroundings \<Rightarrow> ref \<Rightarrow> ref \<Rightarrow> Backoff \<Rightarrow> bool \<Rightarrow> Submission
     \<Rightarrow> (Backoff \<times> bool \<times> Submission) option" where
  "retryLoop env n parent retryBackoff err s =
     (if Ongoing env s retryBackoff then
        (let s1 = s\<lparr>attempts := attempts s @ [(n, clock s)]\<rparr> in
         if queueFull env (length (attempts s)) then
           (case Wait env retryBackoff
                   (s1\<lparr>retryLog := retryLog s1 @ [(n, parent, NumRetries retryBackoff)]\<rparr>) of
              (b', s2) \<Rightarrow> retryLoop env n parent b' True s2)
         else Some (retryBackoff, False, s1\<lparr>queued := queued s1 @ [n]\<rparr>))
      else Some (retryBackoff, err, s))"

declare retryLoop.simps [code]

text \<open>
  The outer loop over \<open>dependenciesToParentsMap\<close>: a fresh policy for every dependant, then
  the span's \<open>retries\<close> attribute and status.
\<close>

fun submitAll :: "Surroundings \<Rightarrow> Config \<Rightarrow> (ref \<times> ref) list \<Rightarrow> Submission
    \<Rightarrow> Submission option" where
  "submitAll env c [] s = Some s"
| "submitAll env c ((n, parent) # rest) s =
     (case retryLoop env n parent (New c) False s of
        None \<Rightarrow> None
      | Some (b, err, s1) \<Rightarrow>
          submitAll env c rest (s1\<lparr>spans := spans s1 @ [(n, parent, NumRetries b, err)]\<rparr>))"

text \<open>
  \<open>EvaluateDependencies\<close>. The order in which \<open>range dependenciesToParentsMap\<close> yields the
  dependants is the parameter \<open>rangeOrder\<close>.
\<close>

definition submissionOrder :: "ref list \<Rightarrow> (ref \<times> ref) list \<Rightarrow> (ref \<times> ref) list" where
  "submissionOrder rangeOrder m =
     concat (map (\<lambda>n. case map_of m n of None \<Rightarrow> [] | Some parent \<Rightarrow> [(n, parent)])
               rangeOrder)"

definition EvaluateDependencies :: "Surroundings \<Rightarrow> Config \<Rightarrow> Loader \<Rightarrow> ref list \<Rightarrow> ref list
    \<Rightarrow> Submission \<Rightarrow> Submission option" where
  "EvaluateDependencies env c l rangeOrder updatedNodes s =
     (if updatedNodes = [] then Some s
      else submitAll env c
             (submissionOrder rangeOrder (dependenciesToParentsMap l updatedNodes)) s)"

text \<open>A run that starts at time \<open>t\<close>.\<close>

definition startAt :: "int \<Rightarrow> Submission" where
  "startAt t = \<lparr>clock = t, attempts = [], queued = [], retryLog = [], delays = [], spans = []\<rparr>"

text \<open>
  A pool whose queue never drains, and a caller that cancels after five milliseconds.
\<close>

definition alwaysFull :: Surroundings where
  "alwaysFull = \<lparr>cancelledAt = Some (5 * Millisecond), queueFull = (\<lambda>k. True),
                  jitter = (\<lambda>k. 123456789 * int (k + 1))\<rparr>"

text \<open>
  A pool that rejects its first two calls and accepts from then on, and a caller that
  never cancels.
\<close>

definition fullTwice :: Surroundings where
  "fullTwice = \<lparr>cancelledAt = None, queueFull = (\<lambda>k. k < 2),
                 jitter = (\<lambda>k. 123456789 * int (k + 1))\<rparr>"

subsection \<open>Verification of the retry loop\<close>

text \<open>
  A configuration like the loader's: a positive minimum, at most the maximum, no limit on
  the retries.
\<close>

definition wellConfigured :: "Config \<Rightarrow> bool" where
  "wellConfigured c =
     (0 < MinBackoff c \<and> MinBackoff c \<le> MaxBackoff c \<and> MaxBackoff c < 2 ^ 62
      \<and> MaxRetries c = 0)"

text \<open>
  The delay after \<open>k\<close> retries: between the minimum and the maximum, at least \<open>2 ^ k\<close> times
  the minimum unless it has reached half the maximum, at most \<open>2 ^ (k + 1)\<close> times the
  minimum.
\<close>

definition delayWithin :: "Config \<Rightarrow> nat \<Rightarrow> Duration \<Rightarrow> bool" where
  "delayWithin c k d =
     (MinBackoff c \<le> d \<and> d \<le> MaxBackoff c
      \<and> (2 ^ k * MinBackoff c \<le> d \<or> MaxBackoff c \<le> 2 * d)
      \<and> d \<le> 2 ^ (k + 1) * MinBackoff c)"

text \<open>The range of the next delay after \<open>numRetries\<close> retries.\<close>

definition backoffInv :: "Config \<Rightarrow> Backoff \<Rightarrow> bool" where
  "backoffInv c b =
     (config b = c
      \<and> MinBackoff c \<le> nextDelayMin b \<and> nextDelayMin b \<le> nextDelayMax b
      \<and> nextDelayMax b \<le> MaxBackoff c \<and> nextDelayMax b \<le> 2 * nextDelayMin b
      \<and> (nextDelayMax b = MaxBackoff c \<or> nextDelayMax b = 2 * nextDelayMin b)
      \<and> (2 ^ numRetries b * MinBackoff c \<le> nextDelayMin b
            \<or> MaxBackoff c \<le> 2 * nextDelayMin b)
      \<and> nextDelayMax b \<le> 2 ^ (numRetries b + 1) * MinBackoff c)"

lemma backoffInv_New: "wellConfigured c \<Longrightarrow> backoffInv c (New c)"
  by (simp add: wellConfigured_def backoffInv_def New_def doubleDuration_def)

lemma NextDelay_spec:
  assumes wc: "wellConfigured c" and inv: "backoffInv c b"
    and nd: "NextDelay env k b = (d, b')"
  shows "delayWithin c (numRetries b) d" and "backoffInv c b'"
    and "numRetries b' = Suc (numRetries b)"
proof -
  let ?lo = "nextDelayMin b" and ?hi = "nextDelayMax b"
  let ?Min = "MinBackoff c" and ?Max = "MaxBackoff c" and ?k = "numRetries b"
  from wc have pos: "0 < ?Min" and le: "?Min \<le> ?Max" by (simp_all add: wellConfigured_def)
  from inv have cfg: "config b = c" and i1: "?Min \<le> ?lo" and i2: "?lo \<le> ?hi"
    and i3: "?hi \<le> ?Max" and i4: "?hi \<le> 2 * ?lo"
    and i5: "?hi = ?Max \<or> ?hi = 2 * ?lo"
    and i6: "2 ^ ?k * ?Min \<le> ?lo \<or> ?Max \<le> 2 * ?lo"
    and i7: "?hi \<le> 2 ^ (?k + 1) * ?Min"
    by (simp_all add: backoffInv_def)
  have pw: "2 ^ (?k + 1) * ?Min \<le> 2 ^ (Suc ?k + 1) * ?Min" using pos by simp
  show "numRetries b' = Suc (numRetries b)"
    using nd by (auto simp: NextDelay_def Let_def split: if_splits)
  show "delayWithin c (numRetries b) d"
  proof (cases "?hi \<le> ?lo")
    case True
    with nd have d: "d = ?lo" by (simp add: NextDelay_def Let_def)
    from True i2 have eq: "?hi = ?lo" by simp
    with i5 pos i1 have "?hi = ?Max" by auto
    with eq i1 i3 i6 i7 d show ?thesis by (simp add: delayWithin_def)
  next
    case False
    then have lt: "0 < ?hi - ?lo" by simp
    from False nd have d: "d = ?lo + jitter env k mod (?hi - ?lo)"
      by (auto simp: NextDelay_def Let_def split: if_splits)
    from lt have "0 \<le> jitter env k mod (?hi - ?lo)" and "jitter env k mod (?hi - ?lo) < ?hi - ?lo"
      by simp_all
    with d have lo: "?lo \<le> d" and hi: "d < ?hi" by simp_all
    from lo i6 have "2 ^ ?k * ?Min \<le> d \<or> ?Max \<le> 2 * d" by auto
    with lo hi i1 i3 i7 show ?thesis by (simp add: delayWithin_def)
  qed
  show "backoffInv c b'"
  proof (cases "?hi \<le> ?lo")
    case True
    with nd have b': "b' = b\<lparr>numRetries := ?k + 1\<rparr>" by (simp add: NextDelay_def Let_def)
    from True i2 have eq: "?hi = ?lo" by simp
    with i5 pos i1 have hm: "?hi = ?Max" by auto
    with eq have "?Max \<le> 2 * ?lo" using pos i1 by simp
    with b' cfg i1 i2 i3 i4 i5 i7 pw show ?thesis by (simp add: backoffInv_def)
  next
    case False
    show ?thesis
    proof (cases "?hi < ?Max")
      case True
      with i5 have h2: "?hi = 2 * ?lo" by simp
      with True i6 have g: "2 ^ ?k * ?Min \<le> ?lo" by auto
      from False True nd cfg
      have b': "b' = b\<lparr>numRetries := ?k + 1,
                       nextDelayMin := doubleDuration ?lo ?Max,
                       nextDelayMax := doubleDuration ?hi ?Max\<rparr>"
        by (simp add: NextDelay_def Let_def)
      from h2 True have dl: "doubleDuration ?lo ?Max = ?hi" by (simp add: doubleDuration_def)
      let ?hi' = "doubleDuration ?hi ?Max"
      from pos i1 have lopos: "0 < ?lo" by simp
      with h2 have hh: "?hi \<le> 2 * ?hi" by simp
      have a1: "?Min \<le> ?hi" using i1 i2 by simp
      have a2: "?hi \<le> ?hi'" using hh True by (simp add: doubleDuration_def)
      have a3: "?hi' \<le> ?Max" by (simp add: doubleDuration_def)
      have a4: "?hi' \<le> 2 * ?hi" by (simp add: doubleDuration_def)
      have a5: "?hi' = ?Max \<or> ?hi' = 2 * ?hi" by (simp add: doubleDuration_def)
      have a6: "2 ^ Suc ?k * ?Min \<le> ?hi" using g h2 by simp
      have "2 * ?hi \<le> 2 ^ (Suc ?k + 1) * ?Min" using i7 by (simp add: algebra_simps)
      with a4 have a7: "?hi' \<le> 2 ^ (Suc ?k + 1) * ?Min" by (rule order_trans)
      have b'': "b' = b\<lparr>numRetries := Suc ?k, nextDelayMin := ?hi, nextDelayMax := ?hi'\<rparr>"
        using b' dl by simp
      show ?thesis unfolding backoffInv_def b'' using cfg a1 a2 a3 a4 a5 a6 a7 by simp
    next
      case nlt: False
      with i3 have hm: "?hi = ?Max" by simp
      from False nlt nd cfg have b': "b' = b\<lparr>numRetries := ?k + 1\<rparr>"
        by (simp add: NextDelay_def Let_def)
      from hm i4 have "?Max \<le> 2 * ?lo" by simp
      with b' cfg i1 i2 i3 i4 i5 i7 pw show ?thesis by (simp add: backoffInv_def)
    qed
  qed
qed

text \<open>The context is not cancelled at time \<open>t\<close>.\<close>

definition liveAt :: "Surroundings \<Rightarrow> int \<Rightarrow> bool" where
  "liveAt env t = (case cancelledAt env of None \<Rightarrow> True | Some T \<Rightarrow> t < T)"

text \<open>
  Every failure is logged once and waited for once, with a delay within the bounds of
  its retry count; every call is a success or a logged failure; no call is made once
  the context is cancelled.
\<close>

definition orderly :: "Surroundings \<Rightarrow> Config \<Rightarrow> Submission \<Rightarrow> bool" where
  "orderly env c s =
     (length (delays s) = length (retryLog s)
      \<and> length (attempts s) = length (queued s) + length (retryLog s)
      \<and> (\<forall>x \<in> set (zip (retryLog s) (delays s)). delayWithin c (snd (snd (fst x))) (snd x))
      \<and> (\<forall>a \<in> set (attempts s). liveAt env (snd a)))"

text \<open>The run has not slept beyond the cancellation.\<close>

definition notAfter :: "Surroundings \<Rightarrow> int \<Rightarrow> int \<Rightarrow> bool" where
  "notAfter env t0 t = (case cancelledAt env of None \<Rightarrow> True | Some T \<Rightarrow> t \<le> max t0 T)"

text \<open>
  What the inner loop has done when it returns: it has logged the retries
  \<open>numRetries b, ..., numRetries b' - 1\<close>, and either the pool has accepted the node or the
  context is cancelled.
\<close>

definition retried :: "Surroundings \<Rightarrow> Config \<Rightarrow> ref \<Rightarrow> ref \<Rightarrow> Backoff \<Rightarrow> bool
    \<Rightarrow> Submission \<Rightarrow> Backoff \<times> bool \<times> Submission \<Rightarrow> bool" where
  "retried env c n p b e s y =
     (case y of (b', e', s') \<Rightarrow>
        backoffInv c b' \<and> orderly env c s' \<and> numRetries b \<le> numRetries b'
        \<and> retryLog s' = retryLog s @ map (\<lambda>k. (n, p, k)) [numRetries b..<numRetries b']
        \<and> spans s' = spans s \<and> clock s \<le> clock s' \<and> notAfter env (clock s) (clock s')
        \<and> (queued s' = queued s @ [n] \<and> \<not> e'
            \<or> queued s' = queued s \<and> ctxErr env s'
               \<and> e' = (e \<or> numRetries b < numRetries b')))"

lemma ctxErr_liveAt: "ctxErr env s = (\<not> liveAt env (clock s))"
  by (auto simp: ctxErr_def liveAt_def split: option.splits)

lemma Ongoing_wellConfigured:
  "wellConfigured c \<Longrightarrow> config b = c \<Longrightarrow> Ongoing env s b = liveAt env (clock s)"
  by (simp add: Ongoing_def ctxErr_liveAt wellConfigured_def)

lemma sleepUntil_clock: "clock s' = clock s \<Longrightarrow> sleepUntil env s' d = sleepUntil env s d"
  by (simp add: sleepUntil_def split: option.splits)

lemma sleepUntil_delays: "sleepUntil env (s\<lparr>delays := x\<rparr>) d = sleepUntil env s d"
  by (rule sleepUntil_clock) simp

lemma Wait_spec:
  assumes wc: "wellConfigured c" and inv: "backoffInv c b" and w: "Wait env b s = (b', s')"
  shows "\<exists>d. delayWithin c (numRetries b) d
           \<and> s' = (if liveAt env (clock s)
                   then s\<lparr>delays := delays s @ [d], clock := sleepUntil env s d\<rparr>
                   else s\<lparr>delays := delays s @ [d]\<rparr>)"
    and "backoffInv c b'" and "numRetries b' = Suc (numRetries b)"
proof -
  obtain d b1 where nd: "NextDelay env (length (delays s)) b = (d, b1)"
    by (cases "NextDelay env (length (delays s)) b")
  from NextDelay_spec [OF wc inv nd]
  have dw: "delayWithin c (numRetries b) d" and inv1: "backoffInv c b1"
    and nr: "numRetries b1 = Suc (numRetries b)" by simp_all
  from inv1 have cfg: "config b1 = c" by (simp add: backoffInv_def)
  have on: "Ongoing env (s\<lparr>delays := delays s @ [d]\<rparr>) b1 = liveAt env (clock s)"
    using Ongoing_wellConfigured [OF wc cfg] by simp
  from w nd have b': "b' = b1" by (simp add: Wait_def Let_def)
  from w nd on have s': "s' = (if liveAt env (clock s)
                   then s\<lparr>delays := delays s @ [d], clock := sleepUntil env s d\<rparr>
                   else s\<lparr>delays := delays s @ [d]\<rparr>)"
    by (auto simp: Wait_def Let_def sleepUntil_delays)
  from dw s' show "\<exists>d. delayWithin c (numRetries b) d
           \<and> s' = (if liveAt env (clock s)
                   then s\<lparr>delays := delays s @ [d], clock := sleepUntil env s d\<rparr>
                   else s\<lparr>delays := delays s @ [d]\<rparr>)" by blast
  from inv1 b' show "backoffInv c b'" by simp
  from nr b' show "numRetries b' = Suc (numRetries b)" by simp
qed

lemma sleepUntil_live:
  assumes "liveAt env (clock s)" and "0 < d"
  shows "clock s < sleepUntil env s d" and "notAfter env (clock s) (sleepUntil env s d)"
    and "\<And>T. cancelledAt env = Some T \<Longrightarrow> sleepUntil env s d \<le> T"
  using assms by (auto simp: liveAt_def sleepUntil_def notAfter_def split: option.splits)

text \<open>One failed submission: the call, the log line and the wait.\<close>

definition failedOnce :: "ref \<Rightarrow> ref \<Rightarrow> Backoff \<Rightarrow> Submission \<Rightarrow> Submission" where
  "failedOnce n p b s =
     s\<lparr>attempts := attempts s @ [(n, clock s)],
       retryLog := retryLog s @ [(n, p, NumRetries b)]\<rparr>"

lemma fail_step:
  assumes wc: "wellConfigured c" and inv: "backoffInv c b" and live: "liveAt env (clock s)"
    and w: "Wait env b (failedOnce n p b s) = (b1, s2)"
  shows "backoffInv c b1" and "numRetries b1 = Suc (numRetries b)"
    and "retryLog s2 = retryLog s @ [(n, p, numRetries b)]"
    and "spans s2 = spans s" and "queued s2 = queued s"
    and "attempts s2 = attempts s @ [(n, clock s)]"
    and "clock s < clock s2" and "notAfter env (clock s) (clock s2)"
    and "\<And>T. cancelledAt env = Some T \<Longrightarrow> clock s2 \<le> T"
    and "\<exists>d. delayWithin c (numRetries b) d \<and> delays s2 = delays s @ [d]"
proof -
  let ?s1 = "failedOnce n p b s"
  have c1: "clock ?s1 = clock s" by (simp add: failedOnce_def)
  from Wait_spec [OF wc inv w] c1 live obtain d
    where dw: "delayWithin c (numRetries b) d"
      and s2: "s2 = ?s1\<lparr>delays := delays ?s1 @ [d], clock := sleepUntil env ?s1 d\<rparr>"
      and i1: "backoffInv c b1" and nr: "numRetries b1 = Suc (numRetries b)"
    by auto
  from wc dw have dpos: "0 < d" by (simp add: wellConfigured_def delayWithin_def)
  have su: "sleepUntil env ?s1 d = sleepUntil env s d" by (rule sleepUntil_clock [OF c1])
  show "backoffInv c b1" by (rule i1)
  show "numRetries b1 = Suc (numRetries b)" by (rule nr)
  show "retryLog s2 = retryLog s @ [(n, p, numRetries b)]"
    by (simp add: s2 failedOnce_def NumRetries_def)
  show "spans s2 = spans s" by (simp add: s2 failedOnce_def)
  show "queued s2 = queued s" by (simp add: s2 failedOnce_def)
  show "attempts s2 = attempts s @ [(n, clock s)]" by (simp add: s2 failedOnce_def)
  show "clock s < clock s2" using sleepUntil_live(1) [OF live dpos] by (simp add: s2 su)
  show "notAfter env (clock s) (clock s2)" using sleepUntil_live(2) [OF live dpos] by (simp add: s2 su)
  show "\<And>T. cancelledAt env = Some T \<Longrightarrow> clock s2 \<le> T"
    using sleepUntil_live(3) [OF live dpos] by (simp add: s2 su)
  show "\<exists>d. delayWithin c (numRetries b) d \<and> delays s2 = delays s @ [d]"
    using dw by (auto simp: s2 failedOnce_def)
qed

lemma fail_step_orderly:
  assumes wc: "wellConfigured c" and inv: "backoffInv c b" and live: "liveAt env (clock s)"
    and w: "Wait env b (failedOnce n p b s) = (b1, s2)" and ord: "orderly env c s"
  shows "orderly env c s2"
proof -
  note fs = fail_step [OF wc inv live w]
  from fs(10) obtain d where dw: "delayWithin c (numRetries b) d"
    and ds: "delays s2 = delays s @ [d]" by blast
  from ord have len: "length (delays s) = length (retryLog s)"
    and att: "length (attempts s) = length (queued s) + length (retryLog s)"
    and z: "\<forall>x \<in> set (zip (retryLog s) (delays s)). delayWithin c (snd (snd (fst x))) (snd x)"
    and lv: "\<forall>a \<in> set (attempts s). liveAt env (snd a)"
    by (simp_all add: orderly_def)
  have zz: "zip (retryLog s2) (delays s2)
      = zip (retryLog s) (delays s) @ [((n, p, numRetries b), d)]"
    using len by (simp add: fs(3) ds)
  have l1: "length (delays s2) = length (retryLog s2)"
    using len by (simp add: fs(3) ds)
  have l2: "length (attempts s2) = length (queued s2) + length (retryLog s2)"
    using att by (simp add: fs(3) fs(5) fs(6))
  have l3: "\<forall>x \<in> set (zip (retryLog s2) (delays s2)). delayWithin c (snd (snd (fst x))) (snd x)"
  proof
    fix x assume "x \<in> set (zip (retryLog s2) (delays s2))"
    then have "x \<in> set (zip (retryLog s) (delays s)) \<or> x = ((n, p, numRetries b), d)"
      by (auto simp: zz)
    then show "delayWithin c (snd (snd (fst x))) (snd x)"
    proof
      assume "x \<in> set (zip (retryLog s) (delays s))"
      with z show ?thesis by (rule bspec)
    next
      assume "x = ((n, p, numRetries b), d)"
      with dw show ?thesis by simp
    qed
  qed
  have l4: "\<forall>a \<in> set (attempts s2). liveAt env (snd a)"
  proof
    fix a assume "a \<in> set (attempts s2)"
    then have "a \<in> set (attempts s) \<or> a = (n, clock s)" by (auto simp: fs(6))
    then show "liveAt env (snd a)"
    proof
      assume "a \<in> set (attempts s)"
      with lv show ?thesis by (rule bspec)
    next
      assume "a = (n, clock s)"
      with live show ?thesis by simp
    qed
  qed
  from l1 l2 l3 l4 show ?thesis unfolding orderly_def by (intro conjI)
qed

lemma notAfter_refl: "notAfter env t t"
  by (simp add: notAfter_def split: option.splits)

lemma notAfter_trans:
  "t0 \<le> t1 \<Longrightarrow> notAfter env t0 t1 \<Longrightarrow> notAfter env t1 t2 \<Longrightarrow> notAfter env t0 t2"
  by (auto simp: notAfter_def split: option.splits)

lemma retryLoop_unfold_fail:
  assumes "Ongoing env s b" and "queueFull env (length (attempts s))"
    and "Wait env b (failedOnce n p b s) = (b1, s2)"
  shows "retryLoop env n p b e s = retryLoop env n p b1 True s2"
  using assms by (subst retryLoop.simps) (simp add: failedOnce_def Let_def)

lemma retryLoop_unfold_ok:
  assumes "Ongoing env s b" and "\<not> queueFull env (length (attempts s))"
  shows "retryLoop env n p b e s
    = Some (b, False, s\<lparr>attempts := attempts s @ [(n, clock s)], queued := queued s @ [n]\<rparr>)"
  using assms by (subst retryLoop.simps) (simp add: Let_def)

lemma retryLoop_unfold_stop:
  assumes "\<not> Ongoing env s b"
  shows "retryLoop env n p b e s = Some (b, e, s)"
  using assms by (subst retryLoop.simps) simp

lemma retried_stop:
  assumes wc: "wellConfigured c" and inv: "backoffInv c b" and ord: "orderly env c s"
    and stop: "\<not> Ongoing env s b"
  shows "retried env c n p b e s (b, e, s)"
proof -
  from inv have "config b = c" by (simp add: backoffInv_def)
  with stop wc have "ctxErr env s" by (simp add: Ongoing_wellConfigured ctxErr_liveAt)
  with inv ord show ?thesis by (simp add: retried_def notAfter_refl)
qed

lemma retried_ok:
  assumes wc: "wellConfigured c" and inv: "backoffInv c b" and ord: "orderly env c s"
    and on: "Ongoing env s b"
  shows "retried env c n p b e s
     (b, False, s\<lparr>attempts := attempts s @ [(n, clock s)], queued := queued s @ [n]\<rparr>)"
proof -
  from inv have "config b = c" by (simp add: backoffInv_def)
  with on wc have live: "liveAt env (clock s)" by (simp add: Ongoing_wellConfigured)
  from ord live
  have "orderly env c (s\<lparr>attempts := attempts s @ [(n, clock s)], queued := queued s @ [n]\<rparr>)"
    by (simp add: orderly_def)
  with inv show ?thesis by (simp add: retried_def notAfter_refl)
qed

lemma retried_fail:
  assumes wc: "wellConfigured c" and inv: "backoffInv c b" and ord: "orderly env c s"
    and on: "Ongoing env s b"
    and w: "Wait env b (failedOnce n p b s) = (b1, s2)"
    and rest: "retried env c n p b1 True s2 y"
  shows "retried env c n p b e s y"
proof -
  from inv have "config b = c" by (simp add: backoffInv_def)
  with on wc have live: "liveAt env (clock s)" by (simp add: Ongoing_wellConfigured)
  note fs = fail_step [OF wc inv live w]
  obtain b' e' s' where y: "y = (b', e', s')" by (cases y)
  let ?k = "numRetries b" and ?k' = "numRetries b'"
  from rest y have r1: "backoffInv c b'" and r2: "orderly env c s'"
    and r3: "numRetries b1 \<le> ?k'"
    and r4: "retryLog s' = retryLog s2 @ map (\<lambda>k. (n, p, k)) [numRetries b1..<?k']"
    and r5: "spans s' = spans s2" and r6: "clock s2 \<le> clock s'"
    and r7: "notAfter env (clock s2) (clock s')"
    and r8: "queued s' = queued s2 @ [n] \<and> \<not> e'
            \<or> queued s' = queued s2 \<and> ctxErr env s' \<and> e' = (True \<or> numRetries b1 < ?k')"
    by (simp_all add: retried_def)
  from r3 fs(2) have lt: "?k < ?k'" by simp
  then have up: "[?k..<?k'] = ?k # [Suc ?k..<?k']" by (rule upt_conv_Cons)
  have g4: "retryLog s' = retryLog s @ map (\<lambda>k. (n, p, k)) [?k..<?k']"
    by (simp add: r4 fs(2) fs(3) up)
  from fs(7) r6 have g6: "clock s \<le> clock s'" by simp
  from fs(7) have "clock s \<le> clock s2" by simp
  from this fs(8) r7 have g7: "notAfter env (clock s) (clock s')" by (rule notAfter_trans)
  from r8 lt have g8: "queued s' = queued s @ [n] \<and> \<not> e'
            \<or> queued s' = queued s \<and> ctxErr env s' \<and> e' = (e \<or> ?k < ?k')"
    by (auto simp: fs(5))
  from lt have g3: "?k \<le> ?k'" by simp
  from r1 r2 g3 g4 r5 g6 g7 g8 show ?thesis
    unfolding y retried_def by (simp add: fs(4))
qed

lemma retryLoop_partial_aux:
  assumes wc: "wellConfigured c" and run: "retryLoop env0 n0 p0 b0 e0 s0 = Some y0"
  shows "backoffInv c b0 \<longrightarrow> orderly env0 c s0 \<longrightarrow> retried env0 c n0 p0 b0 e0 s0 y0"
proof (rule retryLoop.raw_induct
    [where P = "\<lambda>env n p b e s y. backoffInv c b \<longrightarrow> orderly env c s \<longrightarrow> retried env c n p b e s y",
     OF _ run], goal_cases)
  case (1 loop env n p b e s y)
  show ?case
  proof (intro impI)
    assume inv: "backoffInv c b" and ord: "orderly env c s"
    show "retried env c n p b e s y"
    proof (cases "Ongoing env s b")
      case False
      with 1(2) have "y = (b, e, s)" by simp
      with retried_stop [OF wc inv ord False] show ?thesis by simp
    next
      case on: True
      show ?thesis
      proof (cases "queueFull env (length (attempts s))")
        case False
        with on 1(2)
        have "y = (b, False, s\<lparr>attempts := attempts s @ [(n, clock s)],
                                queued := queued s @ [n]\<rparr>)"
          by (simp add: Let_def)
        with retried_ok [OF wc inv ord on] show ?thesis by simp
      next
        case True
        obtain b1 s2 where w: "Wait env b (failedOnce n p b s) = (b1, s2)"
          by (cases "Wait env b (failedOnce n p b s)")
        with on True 1(2) have rec: "loop env n p b1 True s2 = Some y"
          by (simp add: Let_def failedOnce_def)
        from on inv wc have live: "liveAt env (clock s)"
          by (simp add: Ongoing_wellConfigured backoffInv_def)
        from 1(1) [OF rec] fail_step(1) [OF wc inv live w]
          fail_step_orderly [OF wc inv live w ord]
        have "retried env c n p b1 True s2 y" by blast
        with wc inv ord on w show ?thesis by (rule retried_fail)
      qed
    qed
  qed
qed

lemma retryLoop_partial:
  assumes "retryLoop env n p b e s = Some y" and "wellConfigured c"
    and "backoffInv c b" and "orderly env c s"
  shows "retried env c n p b e s y"
  using retryLoop_partial_aux [OF assms(2) assms(1)] assms(3) assms(4) by blast

lemma retryLoop_returns_cancelled:
  assumes wc: "wellConfigured c" and T: "cancelledAt env = Some T"
  shows "backoffInv c b \<Longrightarrow> \<exists>y. retryLoop env n p b e s = Some y"
proof (induction "nat (T - clock s)" arbitrary: b e s rule: less_induct)
  case less
  show ?case
  proof (cases "Ongoing env s b")
    case False
    then show ?thesis by (simp add: retryLoop_unfold_stop)
  next
    case on: True
    show ?thesis
    proof (cases "queueFull env (length (attempts s))")
      case False
      show ?thesis unfolding retryLoop_unfold_ok [OF on False] by (rule exI) (rule refl)
    next
      case True
      obtain b1 s2 where w: "Wait env b (failedOnce n p b s) = (b1, s2)"
        by (cases "Wait env b (failedOnce n p b s)")
      from on less.prems wc have live: "liveAt env (clock s)"
        by (simp add: Ongoing_wellConfigured backoffInv_def)
      note fs = fail_step [OF wc less.prems live w]
      from fs(7) fs(9) [OF T] have "nat (T - clock s2) < nat (T - clock s)" by simp
      from less.hyps [OF this fs(1)] obtain y where rec: "retryLoop env n p b1 True s2 = Some y"
        by blast
      have "retryLoop env n p b e s = retryLoop env n p b1 True s2"
        by (rule retryLoop_unfold_fail [OF on True w])
      also note rec
      finally show ?thesis by (rule exI)
    qed
  qed
qed

lemma retryLoop_returns_accepting:
  assumes wc: "wellConfigured c" and N: "\<forall>k\<ge>N. \<not> queueFull env k"
  shows "backoffInv c b \<Longrightarrow> \<exists>y. retryLoop env n p b e s = Some y"
proof (induction "N - length (attempts s)" arbitrary: b e s rule: less_induct)
  case less
  show ?case
  proof (cases "Ongoing env s b")
    case False
    then show ?thesis by (simp add: retryLoop_unfold_stop)
  next
    case on: True
    show ?thesis
    proof (cases "queueFull env (length (attempts s))")
      case False
      show ?thesis unfolding retryLoop_unfold_ok [OF on False] by (rule exI) (rule refl)
    next
      case True
      obtain b1 s2 where w: "Wait env b (failedOnce n p b s) = (b1, s2)"
        by (cases "Wait env b (failedOnce n p b s)")
      from on less.prems wc have live: "liveAt env (clock s)"
        by (simp add: Ongoing_wellConfigured backoffInv_def)
      note fs = fail_step [OF wc less.prems live w]
      from True N have "length (attempts s) < N" by (meson not_le)
      then have "N - length (attempts s2) < N - length (attempts s)" by (simp add: fs(6))
      from less.hyps [OF this fs(1)] obtain y where rec: "retryLoop env n p b1 True s2 = Some y"
        by blast
      have "retryLoop env n p b e s = retryLoop env n p b1 True s2"
        by (rule retryLoop_unfold_fail [OF on True w])
      also note rec
      finally show ?thesis by (rule exI)
    qed
  qed
qed

lemma retryLoop_total:
  assumes wc: "wellConfigured c"
    and fin: "cancelledAt env \<noteq> None \<or> (\<exists>N. \<forall>k\<ge>N. \<not> queueFull env k)"
    and inv: "backoffInv c b" and ord: "orderly env c s"
  shows "\<exists>y. retryLoop env n p b e s = Some y \<and> retried env c n p b e s y"
proof -
  from fin have "\<exists>y. retryLoop env n p b e s = Some y"
  proof
    assume "cancelledAt env \<noteq> None"
    then obtain T where "cancelledAt env = Some T" by auto
    from retryLoop_returns_cancelled [OF wc this inv] show ?thesis .
  next
    assume "\<exists>N. \<forall>k\<ge>N. \<not> queueFull env k"
    then obtain N where "\<forall>k\<ge>N. \<not> queueFull env k" ..
    from retryLoop_returns_accepting [OF wc this inv] show ?thesis .
  qed
  then obtain y where y: "retryLoop env n p b e s = Some y" ..
  from retryLoop_partial [OF y wc inv ord] y show ?thesis by blast
qed

text \<open>
  The nodes of the calls the pool has answered in one way: the k-th call of the run is
  rejected exactly when \<open>queueFull env k\<close>. \<open>rejectedBefore env i\<close> counts the rejected calls
  among the first \<open>i\<close>.
\<close>

definition outcomeNodes :: "Surroundings \<Rightarrow> bool \<Rightarrow> (ref \<times> int) list \<Rightarrow> ref list" where
  "outcomeNodes env full calls =
     map (\<lambda>ia. fst (snd ia)) (filter (\<lambda>ia. queueFull env (fst ia) = full) (enumerate 0 calls))"

definition rejectedBefore :: "Surroundings \<Rightarrow> nat \<Rightarrow> nat" where
  "rejectedBefore env i = length (filter (queueFull env) [0..<i])"

text \<open>
  \<open>answered\<close>: the nodes queued are those of the accepted calls, in order; the log has one
  line for each rejected call, for its node, in order, and one delay for each line; and a
  rejected call that is not the last call is followed by a call for the same node, made
  when the delay computed for the rejection has passed. \<open>pending env n s\<close>: if the last call
  was rejected and the context is not cancelled, the loop is about to retry \<open>n\<close>, the node
  of that call, once its delay has passed. \<open>settled\<close>: the last call is left rejected only
  if the context is cancelled.
\<close>

definition answered :: "Surroundings \<Rightarrow> Submission \<Rightarrow> bool" where
  "answered env s =
     (queued s = outcomeNodes env False (attempts s)
      \<and> map fst (retryLog s) = outcomeNodes env True (attempts s)
      \<and> length (delays s) = length (retryLog s)
      \<and> (\<forall>i < length (attempts s) - 1. queueFull env i \<longrightarrow>
            fst (attempts s ! Suc i) = fst (attempts s ! i)
            \<and> snd (attempts s ! Suc i) = snd (attempts s ! i) + delays s ! rejectedBefore env i))"

definition pending :: "Surroundings \<Rightarrow> ref \<Rightarrow> Submission \<Rightarrow> bool" where
  "pending env n s =
     (attempts s \<noteq> [] \<and> queueFull env (length (attempts s) - 1) \<and> liveAt env (clock s) \<longrightarrow>
        fst (last (attempts s)) = n \<and> delays s \<noteq> []
        \<and> clock s = snd (last (attempts s)) + last (delays s))"

definition settled :: "Surroundings \<Rightarrow> Submission \<Rightarrow> bool" where
  "settled env s =
     (attempts s \<noteq> [] \<and> queueFull env (length (attempts s) - 1) \<longrightarrow> ctxErr env s)"

lemma outcomeNodes_Nil [simp]: "outcomeNodes env full [] = []"
  by (simp add: outcomeNodes_def)

lemma outcomeNodes_snoc:
  "outcomeNodes env full (calls @ [a])
     = outcomeNodes env full calls @ (if queueFull env (length calls) = full then [fst a] else [])"
  by (simp add: outcomeNodes_def enumerate_append_eq)

lemma rejectedBefore_Suc:
  "rejectedBefore env (Suc i) = rejectedBefore env i + (if queueFull env i then 1 else 0)"
  by (simp add: rejectedBefore_def)

lemma rejectedBefore_mono: "i \<le> j \<Longrightarrow> rejectedBefore env i \<le> rejectedBefore env j"
  by (induction j) (auto simp: rejectedBefore_Suc le_Suc_eq)

lemma rejectedBefore_less:
  assumes "i < j" and "queueFull env i"
  shows "rejectedBefore env i < rejectedBefore env j"
proof -
  from assms(1) have "Suc i \<le> j" by simp
  then have "rejectedBefore env (Suc i) \<le> rejectedBefore env j" by (rule rejectedBefore_mono)
  with assms(2) show ?thesis by (simp add: rejectedBefore_Suc)
qed

lemma length_outcomeNodes_True:
  "length (outcomeNodes env True calls) = rejectedBefore env (length calls)"
  by (induction calls rule: rev_induct) (simp_all add: outcomeNodes_snoc rejectedBefore_Suc rejectedBefore_def)

lemma answered_rejected:
  "answered env s \<Longrightarrow> length (delays s) = rejectedBefore env (length (attempts s))"
  using length_outcomeNodes_True [of env "attempts s"]
  by (auto simp: answered_def dest: arg_cong [where f = length])

text \<open>The spacing of the retries carries over to one more call.\<close>

lemma spaced_snoc:
  assumes ans: "answered env s" and pend: "pending env n s" and live: "liveAt env (clock s)"
    and ds: "ds = delays s \<or> (\<exists>d. ds = delays s @ [d])"
    and i: "i < length (attempts s @ [(n, clock s)]) - 1" and full: "queueFull env i"
  shows "fst ((attempts s @ [(n, clock s)]) ! Suc i) = fst ((attempts s @ [(n, clock s)]) ! i)
       \<and> snd ((attempts s @ [(n, clock s)]) ! Suc i)
           = snd ((attempts s @ [(n, clock s)]) ! i) + ds ! rejectedBefore env i"
proof -
  let ?as = "attempts s" and ?N = "length (attempts s)"
  from i have iN: "i < ?N" by simp
  from answered_rejected [OF ans] have len: "length (delays s) = rejectedBefore env ?N" .
  from rejectedBefore_less [OF iN full] len have rb: "rejectedBefore env i < length (delays s)"
    by simp
  from ds rb have dsi: "ds ! rejectedBefore env i = delays s ! rejectedBefore env i"
    by (auto simp: nth_append)
  show ?thesis
  proof (cases "Suc i < ?N")
    case True
    with iN have "i < ?N - 1" by simp
    with ans full have "fst (?as ! Suc i) = fst (?as ! i)
        \<and> snd (?as ! Suc i) = snd (?as ! i) + delays s ! rejectedBefore env i"
      by (simp add: answered_def)
    with True iN dsi show ?thesis by (simp add: nth_append)
  next
    case False
    with iN have eq: "Suc i = ?N" by simp
    then have iN1: "i = ?N - 1" and ne: "?as \<noteq> []" by auto
    from pend ne full live iN1 have p: "fst (last ?as) = n" "delays s \<noteq> []"
      "clock s = snd (last ?as) + last (delays s)"
      by (simp_all add: pending_def)
    from ne iN1 have lst: "last ?as = ?as ! i" by (simp add: last_conv_nth)
    from eq full have "rejectedBefore env ?N = Suc (rejectedBefore env i)"
      using rejectedBefore_Suc [of env i] by simp
    with len p(2) have "last (delays s) = delays s ! rejectedBefore env i"
      by (simp add: last_conv_nth)
    with p lst dsi eq iN show ?thesis by (simp add: nth_append)
  qed
qed

lemma answered_ok:
  assumes ans: "answered env s" and pend: "pending env n s" and live: "liveAt env (clock s)"
    and ok: "\<not> queueFull env (length (attempts s))"
  shows "answered env (s\<lparr>attempts := attempts s @ [(n, clock s)], queued := queued s @ [n]\<rparr>)"
    and "settled env (s\<lparr>attempts := attempts s @ [(n, clock s)], queued := queued s @ [n]\<rparr>)"
proof -
  let ?s' = "s\<lparr>attempts := attempts s @ [(n, clock s)], queued := queued s @ [n]\<rparr>"
  from ans have q: "queued s = outcomeNodes env False (attempts s)"
    and r: "map fst (retryLog s) = outcomeNodes env True (attempts s)"
    and l: "length (delays s) = length (retryLog s)"
    by (simp_all add: answered_def)
  have sp: "\<forall>i < length (attempts ?s') - 1. queueFull env i \<longrightarrow>
            fst (attempts ?s' ! Suc i) = fst (attempts ?s' ! i)
            \<and> snd (attempts ?s' ! Suc i) = snd (attempts ?s' ! i) + delays ?s' ! rejectedBefore env i"
    using spaced_snoc [OF ans pend live, of "delays s"] by simp
  from q r l ok sp show "answered env ?s'"
    unfolding answered_def by (simp add: outcomeNodes_snoc)
  from ok show "settled env ?s'" by (simp add: settled_def)
qed

lemma fail_step_exact:
  assumes wc: "wellConfigured c" and inv: "backoffInv c b" and live: "liveAt env (clock s)"
    and w: "Wait env b (failedOnce n p b s) = (b1, s2)"
  shows "\<exists>d. 0 < d
      \<and> s2 = s\<lparr>attempts := attempts s @ [(n, clock s)],
               retryLog := retryLog s @ [(n, p, numRetries b)],
               delays := delays s @ [d], clock := sleepUntil env s d\<rparr>"
proof -
  let ?s1 = "failedOnce n p b s"
  have c1: "clock ?s1 = clock s" by (simp add: failedOnce_def)
  from Wait_spec(1) [OF wc inv w] c1 live obtain d
    where dw: "delayWithin c (numRetries b) d"
      and s2: "s2 = ?s1\<lparr>delays := delays ?s1 @ [d], clock := sleepUntil env ?s1 d\<rparr>"
    by auto
  from wc dw have dpos: "0 < d" by (simp add: wellConfigured_def delayWithin_def)
  have su: "sleepUntil env ?s1 d = sleepUntil env s d" by (rule sleepUntil_clock [OF c1])
  from s2 [unfolded su] have "s2 = s\<lparr>attempts := attempts s @ [(n, clock s)],
               retryLog := retryLog s @ [(n, p, numRetries b)],
               delays := delays s @ [d], clock := sleepUntil env s d\<rparr>"
    by (simp add: failedOnce_def NumRetries_def)
  with dpos show ?thesis by blast
qed

lemma sleepUntil_exact:
  assumes "liveAt env (sleepUntil env s d)" and "0 < d"
  shows "sleepUntil env s d = clock s + d"
  using assms by (auto simp: liveAt_def sleepUntil_def split: option.splits)

lemma answered_fail:
  assumes wc: "wellConfigured c" and inv: "backoffInv c b" and live: "liveAt env (clock s)"
    and w: "Wait env b (failedOnce n p b s) = (b1, s2)"
    and ans: "answered env s" and pend: "pending env n s"
    and full: "queueFull env (length (attempts s))"
  shows "answered env s2" and "pending env n s2"
proof -
  from fail_step_exact [OF wc inv live w] obtain d where dpos: "0 < d"
    and s2: "s2 = s\<lparr>attempts := attempts s @ [(n, clock s)],
               retryLog := retryLog s @ [(n, p, numRetries b)],
               delays := delays s @ [d], clock := sleepUntil env s d\<rparr>"
    by blast
  from ans have q: "queued s = outcomeNodes env False (attempts s)"
    and r: "map fst (retryLog s) = outcomeNodes env True (attempts s)"
    and l: "length (delays s) = length (retryLog s)"
    by (simp_all add: answered_def)
  have "\<exists>d'. delays s @ [d] = delays s @ [d']" by blast
  then have ds: "delays s @ [d] = delays s \<or> (\<exists>d'. delays s @ [d] = delays s @ [d'])" ..
  have sp: "\<forall>i < length (attempts s2) - 1. queueFull env i \<longrightarrow>
            fst (attempts s2 ! Suc i) = fst (attempts s2 ! i)
            \<and> snd (attempts s2 ! Suc i) = snd (attempts s2 ! i) + delays s2 ! rejectedBefore env i"
    using spaced_snoc [OF ans pend live ds] by (simp add: s2)
  from q r l full sp show "answered env s2"
    unfolding answered_def by (simp add: s2 outcomeNodes_snoc)
  show "pending env n s2"
    unfolding pending_def using sleepUntil_exact [of env s d] dpos by (simp add: s2)
qed

lemma retryLoop_answers_aux:
  assumes wc: "wellConfigured c" and run: "retryLoop env0 n0 p0 b0 e0 s0 = Some y0"
  shows "backoffInv c b0 \<longrightarrow> answered env0 s0 \<longrightarrow> pending env0 n0 s0 \<longrightarrow>
           answered env0 (snd (snd y0)) \<and> settled env0 (snd (snd y0))"
proof (rule retryLoop.raw_induct
    [where P = "\<lambda>env n p b e s y. backoffInv c b \<longrightarrow> answered env s \<longrightarrow> pending env n s \<longrightarrow>
           answered env (snd (snd y)) \<and> settled env (snd (snd y))",
     OF _ run], goal_cases)
  case (1 loop env n p b e s y)
  show ?case
  proof (intro impI)
    assume inv: "backoffInv c b" and ans: "answered env s" and pend: "pending env n s"
    from inv have cfg: "config b = c" by (simp add: backoffInv_def)
    show "answered env (snd (snd y)) \<and> settled env (snd (snd y))"
    proof (cases "Ongoing env s b")
      case False
      with 1(2) have y: "y = (b, e, s)" by simp
      from False wc cfg have "ctxErr env s" by (simp add: Ongoing_wellConfigured ctxErr_liveAt)
      with ans y show ?thesis by (simp add: settled_def)
    next
      case on: True
      with wc cfg have live: "liveAt env (clock s)" by (simp add: Ongoing_wellConfigured)
      show ?thesis
      proof (cases "queueFull env (length (attempts s))")
        case False
        with on 1(2)
        have "y = (b, False, s\<lparr>attempts := attempts s @ [(n, clock s)],
                                queued := queued s @ [n]\<rparr>)"
          by (simp add: Let_def)
        with answered_ok [OF ans pend live False] show ?thesis by simp
      next
        case True
        obtain b1 s2 where w: "Wait env b (failedOnce n p b s) = (b1, s2)"
          by (cases "Wait env b (failedOnce n p b s)")
        with on True 1(2) have rec: "loop env n p b1 True s2 = Some y"
          by (simp add: Let_def failedOnce_def)
        from 1(1) [OF rec] fail_step(1) [OF wc inv live w]
          answered_fail [OF wc inv live w ans pend True]
        show ?thesis by blast
      qed
    qed
  qed
qed

lemma retryLoop_answers:
  assumes "retryLoop env n p b e s = Some (b', e', s')" and "wellConfigured c"
    and "backoffInv c b" and "answered env s" and "settled env s"
  shows "answered env s'" and "settled env s'"
proof -
  from assms(5) have "pending env n s" by (auto simp: pending_def settled_def ctxErr_liveAt)
  with retryLoop_answers_aux [OF assms(2) assms(1)] assms(3) assms(4)
  show "answered env s'" and "settled env s'" by simp_all
qed

text \<open>
  The dependant and originator of a span, and the log lines of its retries.
\<close>

definition taskOf :: "ref \<times> ref \<times> nat \<times> bool \<Rightarrow> ref \<times> ref" where
  "taskOf sp = (fst sp, fst (snd sp))"

definition retriesOf :: "ref \<times> ref \<times> nat \<times> bool \<Rightarrow> (ref \<times> ref \<times> nat) list" where
  "retriesOf sp = map (\<lambda>k. (fst sp, fst (snd sp), k)) [0..<fst (snd (snd sp))]"

text \<open>
  What \<open>EvaluateDependencies\<close> has done when it returns: one span for each dependant, in
  order; the log holds, for each dependant, one line for each of its retries, numbered
  from 0 to the span's \<open>retries\<close>; each logged failure was followed by a delay within the
  bounds of its retry count, and no call was made once the context was cancelled
  (\<open>orderly\<close>); a node is queued exactly when a call for it was accepted, every rejected
  call is logged and, unless it is the last call, retried for the same node when its
  delay has passed (\<open>answered\<close>); the last call is left rejected only if the context is
  cancelled (\<open>settled\<close>); the nodes queued are the first dependants, in order, and all of
  them unless the context is cancelled; and the run has not slept beyond the
  cancellation.
\<close>

definition submittedWithBackoff ::
  "Surroundings \<Rightarrow> Config \<Rightarrow> (ref \<times> ref) list \<Rightarrow> int \<Rightarrow> Submission \<Rightarrow> bool" where
  "submittedWithBackoff env c tasks t0 s =
     (map taskOf (spans s) = tasks
      \<and> retryLog s = concat (map retriesOf (spans s))
      \<and> orderly env c s \<and> answered env s \<and> settled env s
      \<and> queued s = map fst (take (length (queued s)) tasks)
      \<and> (queued s = map fst tasks \<or> ctxErr env s)
      \<and> notAfter env t0 (clock s))"

lemma orderly_spans [simp]: "orderly env c (s\<lparr>spans := x\<rparr>) = orderly env c s"
  by (simp add: orderly_def)

lemma ctxErr_spans [simp]: "ctxErr env (s\<lparr>spans := x\<rparr>) = ctxErr env s"
  by (simp add: ctxErr_def split: option.splits)

lemma ctxErr_mono: "ctxErr env s \<Longrightarrow> clock s \<le> clock s' \<Longrightarrow> ctxErr env s'"
  by (auto simp: ctxErr_def split: option.splits)

lemma orderly_startAt: "orderly env c (startAt t0)"
  by (simp add: orderly_def startAt_def)

lemma answered_spans [simp]: "answered env (s\<lparr>spans := x\<rparr>) = answered env s"
  by (simp add: answered_def)

lemma settled_spans [simp]: "settled env (s\<lparr>spans := x\<rparr>) = settled env s"
  by (simp add: settled_def)

lemma answered_startAt: "answered env (startAt t0)"
  by (simp add: answered_def startAt_def)

lemma settled_startAt: "settled env (startAt t0)"
  by (simp add: settled_def startAt_def)

lemma submitAll_cancelled:
  "ctxErr env s \<Longrightarrow> submitAll env c tasks s = Some s' \<Longrightarrow> queued s' = queued s"
proof (induction tasks arbitrary: s)
  case Nil
  then show ?case by simp
next
  case (Cons task rest)
  obtain n p where task: "task = (n, p)" by (cases task)
  from Cons.prems(1) have "\<not> Ongoing env s (New c)" by (simp add: Ongoing_def)
  then have "retryLoop env n p (New c) False s = Some (New c, False, s)"
    by (rule retryLoop_unfold_stop)
  with Cons.prems(2) have
    "submitAll env c rest (s\<lparr>spans := spans s @ [(n, p, NumRetries (New c), False)]\<rparr>) = Some s'"
    by (simp add: task)
  from Cons.IH [OF _ this] Cons.prems(1) show ?case by simp
qed

lemma submitAll_spec:
  assumes wc: "wellConfigured c"
    and fin: "cancelledAt env \<noteq> None \<or> (\<exists>N. \<forall>k\<ge>N. \<not> queueFull env k)"
  shows "orderly env c s \<Longrightarrow> answered env s \<Longrightarrow> settled env s \<Longrightarrow>
    \<exists>s' sp m. submitAll env c tasks s = Some s' \<and> orderly env c s'
       \<and> answered env s' \<and> settled env s'
       \<and> spans s' = spans s @ sp \<and> map taskOf sp = tasks
       \<and> retryLog s' = retryLog s @ concat (map retriesOf sp)
       \<and> queued s' = queued s @ map fst (take m tasks)
       \<and> (queued s' = queued s @ map fst tasks \<or> ctxErr env s')
       \<and> clock s \<le> clock s' \<and> notAfter env (clock s) (clock s')"
proof (induction tasks arbitrary: s)
  case Nil
  then show ?case by (simp add: notAfter_refl)
next
  case (Cons task rest)
  obtain n p where task: "task = (n, p)" by (cases task)
  from retryLoop_total [OF wc fin backoffInv_New [OF wc] Cons.prems(1)]
  obtain y where run: "retryLoop env n p (New c) False s = Some y"
    and post: "retried env c n p (New c) False s y" by blast
  obtain b e s1 where y: "y = (b, e, s1)" by (cases y)
  let ?span = "(n, p, NumRetries b, e)"
  let ?s1 = "s1\<lparr>spans := spans s1 @ [?span]\<rparr>"
  from post y have r2: "orderly env c s1"
    and r4: "retryLog s1 = retryLog s @ map (\<lambda>k. (n, p, k)) [0..<numRetries b]"
    and r5: "spans s1 = spans s" and r6: "clock s \<le> clock s1"
    and r7: "notAfter env (clock s) (clock s1)"
    and r8: "queued s1 = queued s @ [n] \<or> queued s1 = queued s \<and> ctxErr env s1"
    by (auto simp: retried_def New_def)
  from retryLoop_answers [OF run [unfolded y] wc backoffInv_New [OF wc] Cons.prems(2,3)]
  have a1: "answered env s1" and t1: "settled env s1" by simp_all
  from r2 have o1: "orderly env c ?s1" by simp
  from a1 have a1': "answered env ?s1" by simp
  from t1 have t1': "settled env ?s1" by simp
  from Cons.IH [OF o1 a1' t1'] obtain s' sp m
    where i1: "submitAll env c rest ?s1 = Some s'" and i2: "orderly env c s'"
      and ia: "answered env s'" and it: "settled env s'"
      and i3: "spans s' = spans ?s1 @ sp" and i4: "map taskOf sp = rest"
      and i5: "retryLog s' = retryLog ?s1 @ concat (map retriesOf sp)"
      and im: "queued s' = queued ?s1 @ map fst (take m rest)"
      and i6: "queued s' = queued ?s1 @ map fst rest \<or> ctxErr env s'"
      and i7: "clock ?s1 \<le> clock s'" and i8: "notAfter env (clock ?s1) (clock s')"
    by blast
  have g1: "submitAll env c (task # rest) s = Some s'"
    using run y i1 by (simp add: task)
  have g3: "spans s' = spans s @ (?span # sp)" using i3 r5 by simp
  have g4: "map taskOf (?span # sp) = task # rest" using i4 by (simp add: task taskOf_def)
  have ro: "retriesOf ?span = map (\<lambda>k. (n, p, k)) [0..<numRetries b]"
    by (simp add: retriesOf_def NumRetries_def)
  have g5: "retryLog s' = retryLog s @ concat (map retriesOf (?span # sp))"
    using i5 r4 ro by simp
  have g7: "clock s \<le> clock s'" using r6 i7 by simp
  have g8: "notAfter env (clock s) (clock s')"
    using r6 r7 i8 by (auto intro: notAfter_trans)
  have g6: "queued s' = queued s @ map fst (task # rest) \<or> ctxErr env s'"
  proof (cases "ctxErr env s'")
    case True
    then show ?thesis by simp
  next
    case False
    with i6 have q: "queued s' = queued s1 @ map fst rest" by simp
    from False i7 have "\<not> ctxErr env s1" using ctxErr_mono [of env s1 s'] by auto
    with r8 have "queued s1 = queued s @ [n]" by simp
    with q show ?thesis by (simp add: task)
  qed
  have gm: "\<exists>m'. queued s' = queued s @ map fst (take m' (task # rest))"
  proof (cases "queued s1 = queued s @ [n]")
    case True
    with im have "queued s' = queued s @ map fst (take (Suc m) (task # rest))"
      by (simp add: task)
    then show ?thesis ..
  next
    case False
    with r8 have q: "queued s1 = queued s" and cancelled: "ctxErr env ?s1" by simp_all
    from submitAll_cancelled [OF cancelled i1] q
    have "queued s' = queued s @ map fst (take 0 (task # rest))" by simp
    then show ?thesis ..
  qed
  then obtain m' where gm': "queued s' = queued s @ map fst (take m' (task # rest))" ..
  show ?case
    by (rule exI [of _ s'], rule exI [of _ "?span # sp"], rule exI [of _ m'])
       (intro conjI g1 i2 ia it g3 g4 g5 gm' g6 g7 g8)
qed

text \<open>
  The run against the pool that never drains: three calls for the first dependant, with
  delays in the ranges starting at 1, 2 and 4 milliseconds, the last one cut short by the
  cancellation; no call for the second dependant.
\<close>

definition alwaysFullOutcome :: Submission where
  "alwaysFullOutcome =
     \<lparr>clock = 5000000, attempts = [(1, 0), (1, 1456789), (1, 4370367)],
      queued = [], retryLog = [(1, 0, 0), (1, 0, 1), (1, 0, 2)],
      delays = [1456789, 2913578, 6370367],
      spans = [(1, 0, 3, True), (2, 1, 0, False)]\<rparr>"

text \<open>
  The run against the pool that rejects two calls: three calls for the first dependant,
  two of them logged and waited for, then one call for the second.
\<close>

definition fullTwiceOutcome :: Submission where
  "fullTwiceOutcome =
     \<lparr>clock = 4370367,
      attempts = [(1, 0), (1, 1456789), (1, 4370367), (2, 4370367)],
      queued = [1, 2], retryLog = [(1, 0, 0), (1, 0, 1)],
      delays = [1456789, 2913578],
      spans = [(1, 0, 2, False), (2, 1, 0, False)]\<rparr>"

text \<open>
  C9. For every dependant, \<open>EvaluateDependencies\<close> retries a call of \<open>SubmitWithKey\<close> that
  the pool rejects, for the same node and after an exponential backoff between the
  configured minimum and maximum, logs each retry and counts the retries, until the pool
  accepts the node or the caller's context is cancelled; a node is queued only by an
  accepted call. With a context that is cancelled at some time (or a pool that accepts from
  some call on) it returns, makes no call after the cancellation and does not sleep
  beyond it.
\<close>

theorem EvaluateDependencies_retries_with_backoff:
  assumes "wellConfigured c"
    and "cancelledAt env \<noteq> None \<or> (\<exists>N. \<forall>k\<ge>N. \<not> queueFull env k)"
  shows "\<exists>s'. EvaluateDependencies env c l rangeOrder updatedNodes (startAt t0) = Some s'
      \<and> submittedWithBackoff env c
           (submissionOrder rangeOrder (dependenciesToParentsMap l updatedNodes)) t0 s'"
proof (cases "updatedNodes = []")
  case True
  have "dependenciesToParentsMap l [] = []" by (simp add: dependenciesToParentsMap_def)
  then have "submissionOrder rangeOrder (dependenciesToParentsMap l []) = []"
    by (simp add: submissionOrder_def)
  moreover have "queued (startAt t0) = []" "spans (startAt t0) = []" "retryLog (startAt t0) = []"
    "clock (startAt t0) = t0"
    by (simp_all add: startAt_def)
  ultimately have "submittedWithBackoff env c
      (submissionOrder rangeOrder (dependenciesToParentsMap l [])) t0 (startAt t0)"
    unfolding submittedWithBackoff_def
    by (simp add: orderly_startAt answered_startAt settled_startAt notAfter_refl)
  with True show ?thesis by (simp add: EvaluateDependencies_def)
next
  case False
  let ?tasks = "submissionOrder rangeOrder (dependenciesToParentsMap l updatedNodes)"
  from submitAll_spec [OF assms orderly_startAt answered_startAt settled_startAt, of ?tasks t0]
  obtain s' sp m where run: "submitAll env c ?tasks (startAt t0) = Some s'"
    and ord: "orderly env c s'" and ans: "answered env s'" and stl: "settled env s'"
    and i3: "spans s' = spans (startAt t0) @ sp" and i4: "map taskOf sp = ?tasks"
    and i5: "retryLog s' = retryLog (startAt t0) @ concat (map retriesOf sp)"
    and im: "queued s' = queued (startAt t0) @ map fst (take m ?tasks)"
    and i6: "queued s' = queued (startAt t0) @ map fst ?tasks \<or> ctxErr env s'"
    and i8: "notAfter env (clock (startAt t0)) (clock s')"
    by blast
  from i3 have sp: "spans s' = sp" by (simp add: startAt_def)
  from im have q: "queued s' = map fst (take m ?tasks)" by (simp add: startAt_def)
  have pre: "queued s' = map fst (take (length (queued s')) ?tasks)"
  proof -
    have "length (queued s') = min m (length ?tasks)" by (simp add: q)
    then have "take (length (queued s')) ?tasks = take m ?tasks" by (simp add: min_def)
    with q show ?thesis by simp
  qed
  from False run have r: "EvaluateDependencies env c l rangeOrder updatedNodes (startAt t0) = Some s'"
    by (simp add: EvaluateDependencies_def)
  have "submittedWithBackoff env c ?tasks t0 s'"
    unfolding submittedWithBackoff_def sp
    using ord ans stl i4 i5 i6 i8 pre by (simp add: startAt_def)
  with r show ?thesis by blast
qed

text \<open>
  The loader's configuration against the pool that never drains (the run returns at the
  cancellation with three logged retries and nothing queued) and against the pool that
  rejects two calls (two logged retries, then both dependants queued).
\<close>

theorem EvaluateDependencies_retries_with_backoff_witness:
  "wellConfigured backoffConfig
   \<and> cancelledAt alwaysFull = Some (5 * Millisecond)
   \<and> submissionOrder [1, 2] (dependenciesToParentsMap chainLoader [0, 1]) = [(1, 0), (2, 1)]
   \<and> EvaluateDependencies alwaysFull backoffConfig chainLoader [1, 2] [0, 1] (startAt 0)
       = Some alwaysFullOutcome
   \<and> submittedWithBackoff alwaysFull backoffConfig [(1, 0), (2, 1)] 0 alwaysFullOutcome
   \<and> queueFull fullTwice 0 \<and> queueFull fullTwice 1 \<and> \<not> queueFull fullTwice 2
   \<and> \<not> queueFull fullTwice 3
   \<and> EvaluateDependencies fullTwice backoffConfig chainLoader [1, 2] [0, 1] (startAt 0)
       = Some fullTwiceOutcome
   \<and> submittedWithBackoff fullTwice backoffConfig [(1, 0), (2, 1)] 0 fullTwiceOutcome"
proof -
  have wc: "wellConfigured backoffConfig"
    by (simp add: wellConfigured_def backoffConfig_def Millisecond_def Second_def)
  have T: "cancelledAt alwaysFull = Some (5 * Millisecond)" by (simp add: alwaysFull_def)
  then have fin: "cancelledAt alwaysFull \<noteq> None \<or> (\<exists>N. \<forall>k\<ge>N. \<not> queueFull alwaysFull k)"
    by simp
  have tasks: "submissionOrder [1, 2] (dependenciesToParentsMap chainLoader [0, 1])
      = [(1, 0), (2, 1)]" by code_simp
  have run: "EvaluateDependencies alwaysFull backoffConfig chainLoader [1, 2] [0, 1] (startAt 0)
       = Some alwaysFullOutcome" by code_simp
  from EvaluateDependencies_retries_with_backoff [OF wc fin, of chainLoader "[1, 2]" "[0, 1]" 0]
  have r1: "submittedWithBackoff alwaysFull backoffConfig [(1, 0), (2, 1)] 0 alwaysFullOutcome"
    unfolding tasks run by simp
  have "\<forall>k\<ge>2. \<not> queueFull fullTwice k" by (simp add: fullTwice_def)
  then have fin2: "cancelledAt fullTwice \<noteq> None \<or> (\<exists>N. \<forall>k\<ge>N. \<not> queueFull fullTwice k)"
    by blast
  have q: "queueFull fullTwice 0" "queueFull fullTwice 1" "\<not> queueFull fullTwice 2"
    "\<not> queueFull fullTwice 3"
    by (simp_all add: fullTwice_def)
  have run2: "EvaluateDependencies fullTwice backoffConfig chainLoader [1, 2] [0, 1] (startAt 0)
       = Some fullTwiceOutcome" by code_simp
  from EvaluateDependencies_retries_with_backoff [OF wc fin2, of chainLoader "[1, 2]" "[0, 1]" 0]
  have r2: "submittedWithBackoff fullTwice backoffConfig [(1, 0), (2, 1)] 0 fullTwiceOutcome"
    unfolding tasks run2 by simp
  from wc T tasks run r1 q run2 r2 show ?thesis by (intro conjI)
qed

end
